theory Spec2Isabelle
  imports Main
begin

section \<open>Python lists and their failures\<close>

text \<open>
  The entity of \<open>entity.py\<close> keeps its routing state in Python lists of integers and
  indexes them with integers. An index \<open>i\<close> of a list of length \<open>n\<close> is legal when
  \<open>-n \<le> i < n\<close>; a negative one counts from the end; any other raises \<open>IndexError\<close>.
  Reading an attribute that was never assigned raises \<open>AttributeError\<close>, and indexing a
  list with \<open>None\<close> raises \<open>TypeError\<close>.
\<close>

datatype error = IndexError | AttributeError | TypeError

definition py_index :: "'a list \<Rightarrow> int \<Rightarrow> nat option" where
  "py_index xs i =
     (let n = int (length xs); j = (if i < 0 then n + i else i)
      in if 0 \<le> j \<and> j < n then Some (nat j) else None)"

definition getitem :: "'a list \<Rightarrow> int \<Rightarrow> error + 'a" where
  "getitem xs i = (case py_index xs i of None \<Rightarrow> Inl IndexError | Some j \<Rightarrow> Inr (xs ! j))"

definition setitem :: "'a list \<Rightarrow> int \<Rightarrow> 'a \<Rightarrow> error + 'a list" where
  "setitem xs i x = (case py_index xs i of None \<Rightarrow> Inl IndexError | Some j \<Rightarrow> Inr (xs[j := x]))"

section \<open>Packets\<close>

text \<open>
  Class \<open>Packet\<close> lives in \<open>packet.py\<close>, which is not among the sources;
  \<open>entity.py\<close> meets it in two ways.

  It reads a packet that was delivered to it through \<open>get_source()\<close> and
  \<open>get_costs()\<close>: a delivered packet is the record of what these return, where a source
  that was never set reads as \<open>None\<close>.

  It builds packets with \<open>Packet(neighbor, vector)\<close>. What the constructor does with its
  two arguments cannot be seen from here, so a built packet is the constructor applied to
  the destination and the costs it was handed, and nothing is said of any other field.
\<close>

record packet =
  source :: "int option"
  destination :: int
  costs :: "int list"

datatype built_packet = Packet int "int list"

section \<open>The entity\<close>

text \<open>
  \<open>__init__\<close> assigns \<open>index\<close> and \<open>number_of_entities\<close> only; the three
  other attributes exist once \<open>initialize_costs\<close> has assigned them.
\<close>

record entity =
  index :: int
  number_of_entities :: int
  neighbors :: "int list option"
  vector :: "int list option"
  next_hop :: "int list option"

definition Entity :: "int \<Rightarrow> int \<Rightarrow> entity" where
  "Entity entity_index number_entities =
     \<lparr>index = entity_index, number_of_entities = number_entities,
      neighbors = None, vector = None, next_hop = None\<rparr>"

subsection \<open>initialize_costs\<close>

text \<open>The loop \<open>for link in neighbor_costs: vector[link[0]] = link[1]\<close>.\<close>

fun set_links :: "int list \<Rightarrow> (int \<times> int) list \<Rightarrow> error + int list" where
  "set_links v [] = Inr v"
| "set_links v (link # rest) =
     (case setitem v (fst link) (snd link) of
        Inl err \<Rightarrow> Inl err
      | Inr v' \<Rightarrow> set_links v' rest)"

text \<open>
  The loop over \<open>self.neighbors\<close> that fills \<open>next_hop\<close> and appends one packet per
  neighbour; \<open>v\<close> is the local \<open>vector\<close>.
\<close>

fun set_hops :: "int list \<Rightarrow> int list \<Rightarrow> built_packet list \<Rightarrow> int list
    \<Rightarrow> error + (int list \<times> built_packet list)" where
  "set_hops v nh packets [] = Inr (nh, packets)"
| "set_hops v nh packets (neighbor # rest) =
     (case setitem nh neighbor neighbor of
        Inl err \<Rightarrow> Inl err
      | Inr nh' \<Rightarrow> set_hops v nh' (packets @ [Packet neighbor v]) rest)"

text \<open>
  The result pairs the entity as the call leaves it with what the call returns or raises:
  an exception does not undo the assignments made before it.
\<close>

definition initialize_costs ::
  "entity \<Rightarrow> (int \<times> int) list \<Rightarrow> entity \<times> (error + built_packet list)" where
  "initialize_costs e neighbor_costs =
     (let e1 = e\<lparr>neighbors := Some (map fst neighbor_costs)\<rparr>;
          v0 = replicate (nat (number_of_entities e)) (999 :: int)
      in case setitem v0 (index e) 0 of
           Inl err \<Rightarrow> (e1, Inl err)
         | Inr v1 \<Rightarrow>
             (case set_links v1 neighbor_costs of
                Inl err \<Rightarrow> (e1, Inl err)
              | Inr v \<Rightarrow>
                  (let e2 = e1\<lparr>vector := Some v\<rparr>;
                       nh0 = replicate (nat (number_of_entities e)) (0 :: int)
                   in case setitem nh0 (index e) (index e) of
                        Inl err \<Rightarrow> (e2, Inl err)
                      | Inr nh1 \<Rightarrow>
                          (case set_hops v nh1 [] (map fst neighbor_costs) of
                             Inl err \<Rightarrow> (e2, Inl err)
                           | Inr (nh, packets) \<Rightarrow> (e2\<lparr>next_hop := Some nh\<rparr>, Inr packets)))))"

subsection \<open>update\<close>

text \<open>
  The comprehension \<open>[x + self.vector[packet.get_source()] for x in packet.get_costs()]\<close>.
  Its body runs once per element of the cost list, so an empty cost list gives the empty
  list without touching \<open>self.vector\<close>.
\<close>

definition new_info_of :: "entity \<Rightarrow> packet \<Rightarrow> error + int list" where
  "new_info_of e p =
     (if costs p = [] then Inr []
      else case vector e of
             None \<Rightarrow> Inl AttributeError
           | Some v \<Rightarrow>
               (case source p of
                  None \<Rightarrow> Inl TypeError
                | Some s \<Rightarrow>
                    (case getitem v s of
                       Inl err \<Rightarrow> Inl err
                     | Inr c \<Rightarrow> Inr (map (\<lambda>x. x + c) (costs p)))))"

text \<open>
  The loop \<open>for i in range(self.number_of_entities)\<close>, over the indices still to visit.
  The lists are mutated in place, so an exception in the middle leaves the entries already
  written.
\<close>

fun relax :: "int list \<Rightarrow> int \<Rightarrow> entity \<Rightarrow> bool \<Rightarrow> nat list \<Rightarrow> entity \<times> (error + bool)" where
  "relax new_info src e updated [] = (e, Inr updated)"
| "relax new_info src e updated (i # rest) =
     (case getitem new_info (int i) of
        Inl err \<Rightarrow> (e, Inl err)
      | Inr c \<Rightarrow>
          (case vector e of
             None \<Rightarrow> (e, Inl AttributeError)
           | Some v \<Rightarrow>
               (case getitem v (int i) of
                  Inl err \<Rightarrow> (e, Inl err)
                | Inr old \<Rightarrow>
                    if c < old then
                      (case setitem v (int i) c of
                         Inl err \<Rightarrow> (e, Inl err)
                       | Inr v' \<Rightarrow>
                           (let e1 = e\<lparr>vector := Some v'\<rparr>
                            in case next_hop e1 of
                                 None \<Rightarrow> (e1, Inl AttributeError)
                               | Some nh \<Rightarrow>
                                   (case setitem nh (int i) src of
                                      Inl err \<Rightarrow> (e1, Inl err)
                                    | Inr nh' \<Rightarrow>
                                        relax new_info src (e1\<lparr>next_hop := Some nh'\<rparr>) True rest)))
                    else relax new_info src e updated rest)))"

text \<open>The packets of the final \<open>if updated\<close>: one per neighbour, each with \<open>self.vector\<close>.\<close>

definition broadcast :: "entity \<Rightarrow> error + built_packet list" where
  "broadcast e =
     (case neighbors e of
        None \<Rightarrow> Inl AttributeError
      | Some ns \<Rightarrow>
          (case vector e of
             None \<Rightarrow> (if ns = [] then Inr [] else Inl AttributeError)
           | Some v \<Rightarrow> Inr (map (\<lambda>neighbor. Packet neighbor v) ns)))"

text \<open>
  \<open>update\<close>. With an empty cost list \<open>new_info\<close> is empty and the source of the packet
  is never read: the loop raises \<open>IndexError\<close> at \<open>new_info[0]\<close> when it has a first
  round, and nothing is updated when it has none.
\<close>

definition range_of :: "int \<Rightarrow> nat list" where
  "range_of n = [0 ..< nat n]"

definition update :: "entity \<Rightarrow> packet \<Rightarrow> entity \<times> (error + built_packet list)" where
  "update e p =
     (case new_info_of e p of
        Inl err \<Rightarrow> (e, Inl err)
      | Inr new_info \<Rightarrow>
          (case source p of
             None \<Rightarrow> (if 0 < number_of_entities e then (e, Inl IndexError) else (e, Inr []))
           | Some src \<Rightarrow>
               (case relax new_info src e False (range_of (number_of_entities e)) of
                  (e', Inl err) \<Rightarrow> (e', Inl err)
                | (e', Inr updated) \<Rightarrow>
                    if updated then (e', broadcast e') else (e', Inr []))))"

subsection \<open>forward_next_hop\<close>

definition forward_next_hop :: "entity \<Rightarrow> int \<Rightarrow> error + int" where
  "forward_next_hop e dest =
     (case next_hop e of
        None \<Rightarrow> Inl AttributeError
      | Some nh \<Rightarrow> getitem nh dest)"

subsection \<open>A node over its lifetime\<close>

text \<open>
  The driver delivers packets one at a time; the entity object lives on whatever a call
  returned or raised.
\<close>

fun deliver :: "entity \<Rightarrow> packet list \<Rightarrow> entity" where
  "deliver e [] = e"
| "deliver e (p # ps) = deliver (fst (update e p)) ps"

section \<open>Initialised nodes\<close>

text \<open>
  The state the spec calls Active: the three attributes exist, both tables have one entry
  per entity, and the identities of the node and of its neighbours are node identities,
  that is indices in \<open>[0, N)\<close>.
\<close>

definition active :: "entity \<Rightarrow> bool" where
  "active e =
     (case neighbors e of
        None \<Rightarrow> False
      | Some ns \<Rightarrow>
          (case vector e of
             None \<Rightarrow> False
           | Some v \<Rightarrow>
               (case next_hop e of
                  None \<Rightarrow> False
                | Some nh \<Rightarrow>
                    int (length v) = number_of_entities e \<and> length nh = length v \<and>
                    0 \<le> index e \<and> index e < number_of_entities e \<and>
                    list_all (\<lambda>n. 0 \<le> n \<and> n < number_of_entities e) ns)))"

text \<open>
  What the driver may hand to \<open>initialize_costs\<close>: links to node identities, as the
  docstring and the spec's data model have it.
\<close>

definition valid_links :: "entity \<Rightarrow> (int \<times> int) list \<Rightarrow> bool" where
  "valid_links e neighbor_costs =
     (0 \<le> index e \<and> index e < number_of_entities e \<and>
      list_all (\<lambda>link. 0 \<le> fst link \<and> fst link < number_of_entities e) neighbor_costs)"

section \<open>The entity over a store of lists\<close>

text \<open>
  Python lists are objects: \<open>self.vector\<close>, the local \<open>vector\<close> and the argument of
  \<open>Packet(neighbor, vector)\<close> name one list, and \<open>update\<close> changes it in place. Here the
  lists live in a store, a list of lists addressed by position; creating a list appends it,
  and the entity and the packets hold addresses.
\<close>

type_synonym heap = "int list list"

definition alloc :: "heap \<Rightarrow> int list \<Rightarrow> heap \<times> nat" where
  "alloc h xs = (h @ [xs], length h)"

record ref_packet =
  r_source :: "int option"
  r_destination :: int
  r_costs :: nat

datatype built_ref_packet = Packet_at (sent_to: int) (costs_at: nat)

record ref_entity =
  r_index :: int
  r_number_of_entities :: int
  r_neighbors :: "int list option"
  r_vector :: "nat option"
  r_next_hop :: "nat option"

text \<open>
  Modelled from the spec: the constructor of class \<open>Packet\<close> (\<open>packet.py\<close>, not among
  the sources). The spec gives the envelope copy semantics for the vector: it carries a
  snapshot that later changes of the sender's vector do not reach. So the constructor
  stores a fresh copy of the list it is handed.
\<close>

definition Packet_copy :: "heap \<Rightarrow> int \<Rightarrow> nat \<Rightarrow> heap \<times> built_ref_packet" where
  "Packet_copy h dest a = (case alloc h (h ! a) of (h', c) \<Rightarrow> (h', Packet_at dest c))"

text \<open>
  For comparison, a constructor that keeps the list it is handed, as a plain
  \<open>self.costs = costs\<close> would.
\<close>

definition Packet_share :: "heap \<Rightarrow> int \<Rightarrow> nat \<Rightarrow> heap \<times> built_ref_packet" where
  "Packet_share h dest a = (h, Packet_at dest a)"

text \<open>\<open>initialize_costs\<close> over the store; \<open>mk\<close> is the packet constructor.\<close>

fun set_links_ref :: "heap \<Rightarrow> nat \<Rightarrow> (int \<times> int) list \<Rightarrow> heap \<times> error option" where
  "set_links_ref h a [] = (h, None)"
| "set_links_ref h a (link # rest) =
     (case setitem (h ! a) (fst link) (snd link) of
        Inl err \<Rightarrow> (h, Some err)
      | Inr v' \<Rightarrow> set_links_ref (h[a := v']) a rest)"

fun set_hops_ref :: "(heap \<Rightarrow> int \<Rightarrow> nat \<Rightarrow> heap \<times> built_ref_packet) \<Rightarrow> heap \<Rightarrow> nat \<Rightarrow> nat
    \<Rightarrow> built_ref_packet list \<Rightarrow> int list \<Rightarrow> heap \<times> (error + built_ref_packet list)" where
  "set_hops_ref mk h a b packets [] = (h, Inr packets)"
| "set_hops_ref mk h a b packets (neighbor # rest) =
     (case setitem (h ! b) neighbor neighbor of
        Inl err \<Rightarrow> (h, Inl err)
      | Inr nh' \<Rightarrow>
          (case mk (h[b := nh']) neighbor a of
             (h', p) \<Rightarrow> set_hops_ref mk h' a b (packets @ [p]) rest))"

definition initialize_costs_ref ::
  "(heap \<Rightarrow> int \<Rightarrow> nat \<Rightarrow> heap \<times> built_ref_packet) \<Rightarrow> heap \<Rightarrow> ref_entity \<Rightarrow> (int \<times> int) list
     \<Rightarrow> heap \<times> ref_entity \<times> (error + built_ref_packet list)" where
  "initialize_costs_ref mk h e neighbor_costs =
     (let e1 = e\<lparr>r_neighbors := Some (map fst neighbor_costs)\<rparr>
      in case alloc h (replicate (nat (r_number_of_entities e)) 999) of
        (h1, a) \<Rightarrow>
          (case setitem (h1 ! a) (r_index e) 0 of
             Inl err \<Rightarrow> (h1, e1, Inl err)
           | Inr v1 \<Rightarrow>
               (case set_links_ref (h1[a := v1]) a neighbor_costs of
                  (h2, Some err) \<Rightarrow> (h2, e1, Inl err)
                | (h2, None) \<Rightarrow>
                    (let e2 = e1\<lparr>r_vector := Some a\<rparr>
                     in case alloc h2 (replicate (nat (r_number_of_entities e)) 0) of
                       (h3, b) \<Rightarrow>
                         (case setitem (h3 ! b) (r_index e) (r_index e) of
                            Inl err \<Rightarrow> (h3, e2, Inl err)
                          | Inr nh1 \<Rightarrow>
                              (case set_hops_ref mk (h3[b := nh1]) a b [] (map fst neighbor_costs) of
                                 (h4, Inl err) \<Rightarrow> (h4, e2, Inl err)
                               | (h4, Inr packets) \<Rightarrow>
                                   (h4, e2\<lparr>r_next_hop := Some b\<rparr>, Inr packets)))))))"

text \<open>\<open>update\<close> over the store. It assigns no attribute, so the entity record stays.\<close>

definition new_info_of_ref :: "heap \<Rightarrow> ref_entity \<Rightarrow> ref_packet \<Rightarrow> error + int list" where
  "new_info_of_ref h e p =
     (if h ! r_costs p = [] then Inr []
      else case r_vector e of
             None \<Rightarrow> Inl AttributeError
           | Some a \<Rightarrow>
               (case r_source p of
                  None \<Rightarrow> Inl TypeError
                | Some s \<Rightarrow>
                    (case getitem (h ! a) s of
                       Inl err \<Rightarrow> Inl err
                     | Inr c \<Rightarrow> Inr (map (\<lambda>x. x + c) (h ! r_costs p)))))"

fun relax_ref :: "int list \<Rightarrow> int \<Rightarrow> ref_entity \<Rightarrow> heap \<Rightarrow> bool \<Rightarrow> nat list
    \<Rightarrow> heap \<times> (error + bool)" where
  "relax_ref new_info src e h updated [] = (h, Inr updated)"
| "relax_ref new_info src e h updated (i # rest) =
     (case getitem new_info (int i) of
        Inl err \<Rightarrow> (h, Inl err)
      | Inr c \<Rightarrow>
          (case r_vector e of
             None \<Rightarrow> (h, Inl AttributeError)
           | Some a \<Rightarrow>
               (case getitem (h ! a) (int i) of
                  Inl err \<Rightarrow> (h, Inl err)
                | Inr old \<Rightarrow>
                    if c < old then
                      (case setitem (h ! a) (int i) c of
                         Inl err \<Rightarrow> (h, Inl err)
                       | Inr v' \<Rightarrow>
                           (let h1 = h[a := v']
                            in case r_next_hop e of
                                 None \<Rightarrow> (h1, Inl AttributeError)
                               | Some b \<Rightarrow>
                                   (case setitem (h1 ! b) (int i) src of
                                      Inl err \<Rightarrow> (h1, Inl err)
                                    | Inr nh' \<Rightarrow>
                                        relax_ref new_info src e (h1[b := nh']) True rest)))
                    else relax_ref new_info src e h updated rest)))"

fun send_all :: "(heap \<Rightarrow> int \<Rightarrow> nat \<Rightarrow> heap \<times> built_ref_packet) \<Rightarrow> heap \<Rightarrow> ref_entity
    \<Rightarrow> built_ref_packet list \<Rightarrow> int list \<Rightarrow> heap \<times> (error + built_ref_packet list)" where
  "send_all mk h e packets [] = (h, Inr packets)"
| "send_all mk h e packets (neighbor # rest) =
     (case r_vector e of
        None \<Rightarrow> (h, Inl AttributeError)
      | Some a \<Rightarrow>
          (case mk h neighbor a of
             (h', p) \<Rightarrow> send_all mk h' e (packets @ [p]) rest))"

definition update_ref :: "(heap \<Rightarrow> int \<Rightarrow> nat \<Rightarrow> heap \<times> built_ref_packet) \<Rightarrow> heap \<Rightarrow> ref_entity
    \<Rightarrow> ref_packet \<Rightarrow> heap \<times> (error + built_ref_packet list)" where
  "update_ref mk h e p =
     (case new_info_of_ref h e p of
        Inl err \<Rightarrow> (h, Inl err)
      | Inr new_info \<Rightarrow>
          (case r_source p of
             None \<Rightarrow> (if 0 < r_number_of_entities e then (h, Inl IndexError) else (h, Inr []))
           | Some src \<Rightarrow>
               (case relax_ref new_info src e h False (range_of (r_number_of_entities e)) of
                  (h', Inl err) \<Rightarrow> (h', Inl err)
                | (h', Inr updated) \<Rightarrow>
                    if updated then
                      (case r_neighbors e of
                         None \<Rightarrow> (h', Inl AttributeError)
                       | Some ns \<Rightarrow> send_all mk h' e [] ns)
                    else (h', Inr []))))"

fun deliver_ref :: "(heap \<Rightarrow> int \<Rightarrow> nat \<Rightarrow> heap \<times> built_ref_packet) \<Rightarrow> heap \<Rightarrow> ref_entity
    \<Rightarrow> ref_packet list \<Rightarrow> heap" where
  "deliver_ref mk h e [] = h"
| "deliver_ref mk h e (p # ps) = deliver_ref mk (fst (update_ref mk h e p)) e ps"

definition Entity_ref :: "int \<Rightarrow> int \<Rightarrow> ref_entity" where
  "Entity_ref entity_index number_entities =
     \<lparr>r_index = entity_index, r_number_of_entities = number_entities,
      r_neighbors = None, r_vector = None, r_next_hop = None\<rparr>"

text \<open>The lists an entity refers to exist in the store.\<close>

definition wf_ref :: "heap \<Rightarrow> ref_entity \<Rightarrow> bool" where
  "wf_ref h e =
     ((case r_vector e of None \<Rightarrow> True | Some a \<Rightarrow> a < length h) \<and>
      (case r_next_hop e of None \<Rightarrow> True | Some b \<Rightarrow> b < length h))"

text \<open>
  What an entity and a packet of the store hold, as values: the bridge to the entity
  defined first. \<open>separate\<close> says that the vector and the next hops are two lists, as
  \<open>initialize_costs\<close> creates them.
\<close>

definition abs_entity :: "heap \<Rightarrow> ref_entity \<Rightarrow> entity" where
  "abs_entity h e =
     \<lparr>index = r_index e, number_of_entities = r_number_of_entities e,
      neighbors = r_neighbors e,
      vector = map_option (\<lambda>a. h ! a) (r_vector e),
      next_hop = map_option (\<lambda>b. h ! b) (r_next_hop e)\<rparr>"

definition abs_packet :: "heap \<Rightarrow> ref_packet \<Rightarrow> packet" where
  "abs_packet h p =
     \<lparr>source = r_source p, destination = r_destination p, costs = h ! r_costs p\<rparr>"

definition abs_built :: "heap \<Rightarrow> built_ref_packet \<Rightarrow> built_packet" where
  "abs_built h p = Packet (sent_to p) (h ! costs_at p)"

definition separate :: "ref_entity \<Rightarrow> bool" where
  "separate e = (case r_vector e of None \<Rightarrow> True | Some a \<Rightarrow> r_next_hop e \<noteq> Some a)"

text \<open>
  Node A of the triangle in a store that holds the first vector of B at address 0: its
  vector is created at address 1 and its next hops at address 2.
\<close>

definition node_A_ref :: ref_entity where
  "node_A_ref =
     \<lparr>r_index = 0, r_number_of_entities = 3, r_neighbors = Some [1, 2],
      r_vector = Some 1, r_next_hop = Some 2\<rparr>"

definition from_B_ref :: ref_packet where
  "from_B_ref = \<lparr>r_source = Some 1, r_destination = 0, r_costs = 0\<rparr>"

section \<open>The triangle of the spec\<close>

text \<open>
  Three nodes A, B, C numbered 0, 1, 2 with links A-B of cost 1, B-C of cost 1 and A-C of
  cost 5. \<open>links_A\<close> are the links of A, \<open>node_A\<close> is node A after
  \<open>initialize_costs\<close>, \<open>from_B\<close> is the
  first vector of B as the driver delivers it to A.
\<close>

definition links_A :: "(int \<times> int) list" where
  "links_A = [(1, 1), (2, 5)]"

definition node_A :: entity where
  "node_A = fst (initialize_costs (Entity 0 3) links_A)"

definition from_B :: packet where
  "from_B = \<lparr>source = Some 1, destination = 0, costs = [1, 0, 1]\<rparr>"

section \<open>Lists, indices and the relaxation loop\<close>

lemma py_index_nat: "py_index xs (int i) = (if i < length xs then Some i else None)"
  by (simp add: py_index_def)

lemma py_index_less: "py_index xs i = Some j \<Longrightarrow> j < length xs"
  by (auto simp: py_index_def Let_def split: if_splits)

lemma py_index_nonneg: "0 \<le> i \<Longrightarrow> i < int (length xs) \<Longrightarrow> py_index xs i = Some (nat i)"
  by (simp add: py_index_def)

lemma getitem_nat: "getitem xs (int i) = (if i < length xs then Inr (xs ! i) else Inl IndexError)"
  by (simp add: getitem_def py_index_nat)

lemma setitem_nat: "setitem xs (int i) x = (if i < length xs then Inr (xs[i := x]) else Inl IndexError)"
  by (simp add: setitem_def py_index_nat)

lemma setitem_length: "setitem xs i x = Inr ys \<Longrightarrow> length ys = length xs"
  by (auto simp: setitem_def split: option.splits)

lemma relax_frame:
  "index (fst (relax ni s e u is)) = index e \<and>
   number_of_entities (fst (relax ni s e u is)) = number_of_entities e \<and>
   neighbors (fst (relax ni s e u is)) = neighbors e"
  by (induction ni s e u "is" rule: relax.induct)
     (auto simp: Let_def split: sum.splits option.splits)

lemma relax_vector_rel:
  "vector e = Some v \<Longrightarrow>
   \<exists>v'. vector (fst (relax ni s e u is)) = Some v' \<and> length v' = length v \<and>
        (\<forall>d<length v. v' ! d = v ! d \<or> (v' ! d < v ! d \<and> v' ! d \<in> set ni))"
proof (induction "is" arbitrary: e v u)
  case Nil
  then show ?case by simp
next
  case (Cons i rest)
  show ?case
  proof (cases "i < length ni \<and> i < length v \<and> ni ! i < v ! i \<and> next_hop e \<noteq> None \<and> i < length (the (next_hop e))")
    case True
    then obtain nh where nh: "next_hop e = Some nh" "i < length nh" by auto
    let ?e1 = "e\<lparr>vector := Some (v[i := ni ! i]), next_hop := Some (nh[i := s])\<rparr>"
    have step: "relax ni s e u (i # rest) = relax ni s ?e1 True rest"
      using True nh Cons.prems by (simp add: getitem_nat setitem_nat)
    have "vector ?e1 = Some (v[i := ni ! i])" by simp
    from Cons.IH[OF this, of True] obtain v' where
      v': "vector (fst (relax ni s ?e1 True rest)) = Some v'" "length v' = length v"
          "\<forall>d<length v. v' ! d = v[i := ni ! i] ! d \<or> (v' ! d < v[i := ni ! i] ! d \<and> v' ! d \<in> set ni)"
      by auto
    have "\<forall>d<length v. v' ! d = v ! d \<or> (v' ! d < v ! d \<and> v' ! d \<in> set ni)"
    proof (intro allI impI)
      fix d assume d: "d < length v"
      show "v' ! d = v ! d \<or> (v' ! d < v ! d \<and> v' ! d \<in> set ni)"
      proof (cases "d = i")
        case True
        with v'(3) d \<open>i < length ni \<and> _\<close> show ?thesis by (auto simp: nth_list_update)
      next
        case False
        with v'(3) d show ?thesis by (auto simp: nth_list_update)
      qed
    qed
    with v' step show ?thesis by auto
  next
    case False
    have "relax ni s e u (i # rest) = relax ni s e u rest \<or>
          fst (relax ni s e u (i # rest)) = e \<or>
          (i < length v \<and> i < length ni \<and> ni ! i < v ! i \<and> fst (relax ni s e u (i # rest)) = e\<lparr>vector := Some (v[i := ni ! i])\<rparr>)"
      using False Cons.prems
      by (auto simp: getitem_nat setitem_nat Let_def split: option.splits)
    then consider
      (a) "relax ni s e u (i # rest) = relax ni s e u rest" |
      (b) "fst (relax ni s e u (i # rest)) = e" |
      (c) "i < length v" "i < length ni" "ni ! i < v ! i" "fst (relax ni s e u (i # rest)) = e\<lparr>vector := Some (v[i := ni ! i])\<rparr>"
      by blast
    then show ?thesis
    proof cases
      case a
      with Cons.IH[OF Cons.prems, of u] show ?thesis by simp
    next
      case b
      with Cons.prems show ?thesis by simp
    next
      case c
      then show ?thesis by (auto simp: nth_list_update)
    qed
  qed
qed

lemma relax_good:
  "vector e = Some v \<Longrightarrow> next_hop e = Some nh \<Longrightarrow> length nh = length v \<Longrightarrow>
   \<forall>i\<in>set is. i < length v \<and> i < length ni \<Longrightarrow>
   \<exists>v' nh'. relax ni s e u is =
       (e\<lparr>vector := Some v', next_hop := Some nh'\<rparr>, Inr (u \<or> (\<exists>i\<in>set is. ni ! i < v ! i))) \<and>
     length v' = length v \<and> length nh' = length v \<and>
     (\<forall>d<length v.
        (d \<in> set is \<and> ni ! d < v ! d \<longrightarrow> v' ! d = ni ! d \<and> nh' ! d = s) \<and>
        (\<not> (d \<in> set is \<and> ni ! d < v ! d) \<longrightarrow> v' ! d = v ! d \<and> nh' ! d = nh ! d))"
proof (induction "is" arbitrary: e v nh u)
  case Nil
  have "e = e\<lparr>vector := Some v, next_hop := Some nh\<rparr>" using Nil by simp
  then show ?case using Nil by (intro exI[of _ v] exI[of _ nh]) simp
next
  case (Cons i rest)
  have i: "i < length v" "i < length ni" "i < length nh" using Cons.prems by auto
  have rest: "\<forall>j\<in>set rest. j < length v \<and> j < length ni" using Cons.prems by auto
  show ?case
  proof (cases "ni ! i < v ! i")
    case True
    let ?v1 = "v[i := ni ! i]" and ?nh1 = "nh[i := s]"
    let ?e1 = "e\<lparr>vector := Some ?v1, next_hop := Some ?nh1\<rparr>"
    have step: "relax ni s e u (i # rest) = relax ni s ?e1 True rest"
      using True i Cons.prems(1,2) by (simp add: getitem_nat setitem_nat)
    have "\<forall>j\<in>set rest. j < length ?v1 \<and> j < length ni" using rest by simp
    from Cons.IH[of ?e1 ?v1 ?nh1 True, OF _ _ _ this] obtain v' nh' where
      r: "relax ni s ?e1 True rest = (?e1\<lparr>vector := Some v', next_hop := Some nh'\<rparr>, Inr True)"
      and len: "length v' = length v" "length nh' = length v"
      and pt: "\<forall>d<length v.
        (d \<in> set rest \<and> ni ! d < ?v1 ! d \<longrightarrow> v' ! d = ni ! d \<and> nh' ! d = s) \<and>
        (\<not> (d \<in> set rest \<and> ni ! d < ?v1 ! d) \<longrightarrow> v' ! d = ?v1 ! d \<and> nh' ! d = ?nh1 ! d)"
      using Cons.prems(3) by auto
    have pt': "\<forall>d<length v.
        (d \<in> set (i # rest) \<and> ni ! d < v ! d \<longrightarrow> v' ! d = ni ! d \<and> nh' ! d = s) \<and>
        (\<not> (d \<in> set (i # rest) \<and> ni ! d < v ! d) \<longrightarrow> v' ! d = v ! d \<and> nh' ! d = nh ! d)"
    proof (intro allI impI)
      fix d assume d: "d < length v"
      show "(d \<in> set (i # rest) \<and> ni ! d < v ! d \<longrightarrow> v' ! d = ni ! d \<and> nh' ! d = s) \<and>
        (\<not> (d \<in> set (i # rest) \<and> ni ! d < v ! d) \<longrightarrow> v' ! d = v ! d \<and> nh' ! d = nh ! d)"
      proof (cases "d = i")
        case True
        with pt d i \<open>ni ! i < v ! i\<close> show ?thesis by (auto simp: nth_list_update)
      next
        case False
        with pt d Cons.prems(3) show ?thesis by (auto simp: nth_list_update)
      qed
    qed
    have "relax ni s e u (i # rest) =
        (e\<lparr>vector := Some v', next_hop := Some nh'\<rparr>, Inr (u \<or> (\<exists>i\<in>set (i # rest). ni ! i < v ! i)))"
      using step r True by simp
    with len pt' show ?thesis by blast
  next
    case False
    have step: "relax ni s e u (i # rest) = relax ni s e u rest"
      using False i Cons.prems(1,2) by (simp add: getitem_nat)
    from Cons.IH[OF Cons.prems(1,2,3) rest, of u] obtain v' nh' where
      r: "relax ni s e u rest = (e\<lparr>vector := Some v', next_hop := Some nh'\<rparr>, Inr (u \<or> (\<exists>i\<in>set rest. ni ! i < v ! i)))"
      and len: "length v' = length v" "length nh' = length v"
      and pt: "\<forall>d<length v.
        (d \<in> set rest \<and> ni ! d < v ! d \<longrightarrow> v' ! d = ni ! d \<and> nh' ! d = s) \<and>
        (\<not> (d \<in> set rest \<and> ni ! d < v ! d) \<longrightarrow> v' ! d = v ! d \<and> nh' ! d = nh ! d)"
      by auto
    have pt': "\<forall>d<length v.
        (d \<in> set (i # rest) \<and> ni ! d < v ! d \<longrightarrow> v' ! d = ni ! d \<and> nh' ! d = s) \<and>
        (\<not> (d \<in> set (i # rest) \<and> ni ! d < v ! d) \<longrightarrow> v' ! d = v ! d \<and> nh' ! d = nh ! d)"
      using pt False by auto
    have "relax ni s e u (i # rest) =
        (e\<lparr>vector := Some v', next_hop := Some nh'\<rparr>, Inr (u \<or> (\<exists>i\<in>set (i # rest). ni ! i < v ! i)))"
      using step r False by simp
    with len pt' show ?thesis by blast
  qed
qed

section \<open>What initialize_costs builds\<close>

lemma setitem_nonneg:
  "0 \<le> i \<Longrightarrow> i < int (length xs) \<Longrightarrow> setitem xs i x = Inr (xs[nat i := x])"
  by (simp add: setitem_def py_index_nonneg)

lemma getitem_nonneg:
  "0 \<le> i \<Longrightarrow> i < int (length xs) \<Longrightarrow> getitem xs i = Inr (xs ! nat i)"
  by (simp add: getitem_def py_index_nonneg)

lemma set_links_good:
  "\<forall>link\<in>set nc. 0 \<le> fst link \<and> fst link < int (length v) \<Longrightarrow>
   \<exists>v'. set_links v nc = Inr v' \<and> length v' = length v \<and>
        (\<forall>d<length v. v' ! d = (case map_of (rev nc) (int d) of None \<Rightarrow> v ! d | Some c \<Rightarrow> c))"
proof (induction nc arbitrary: v)
  case Nil
  then show ?case by simp
next
  case (Cons link rest)
  obtain j c where link: "link = (j, c)" by (cases link)
  have j: "0 \<le> j" "j < int (length v)" using Cons.prems link by auto
  let ?v1 = "v[nat j := c]"
  have step: "set_links v (link # rest) = set_links ?v1 rest"
    using j link by (simp add: setitem_nonneg)
  have "\<forall>l\<in>set rest. 0 \<le> fst l \<and> fst l < int (length ?v1)" using Cons.prems by simp
  from Cons.IH[OF this] obtain v' where
    v': "set_links ?v1 rest = Inr v'" "length v' = length v"
        "\<forall>d<length v. v' ! d = (case map_of (rev rest) (int d) of None \<Rightarrow> ?v1 ! d | Some c \<Rightarrow> c)"
    by auto
  have "\<forall>d<length v. v' ! d = (case map_of (rev (link # rest)) (int d) of None \<Rightarrow> v ! d | Some c \<Rightarrow> c)"
  proof (intro allI impI)
    fix d assume d: "d < length v"
    show "v' ! d = (case map_of (rev (link # rest)) (int d) of None \<Rightarrow> v ! d | Some c \<Rightarrow> c)"
    proof (cases "map_of (rev rest) (int d)")
      case None
      then show ?thesis using v'(3) d link j
        by (cases "nat j = d") (auto simp: map_add_def nth_list_update)
    next
      case (Some c')
      then show ?thesis using v'(3) d by (simp add: map_add_def)
    qed
  qed
  with v' step show ?case by auto
qed

lemma map_of_rev_distinct: "distinct (map fst xs) \<Longrightarrow> map_of (rev xs) = map_of xs"
  by (rule map_of_inject_set[THEN iffD2]) (simp_all add: rev_map[symmetric])

lemma set_hops_good:
  "\<forall>n\<in>set ns. 0 \<le> n \<and> n < int (length nh) \<Longrightarrow>
   \<exists>nh'. set_hops v nh packets ns = Inr (nh', packets @ map (\<lambda>neighbor. Packet neighbor v) ns) \<and>
         length nh' = length nh \<and>
         (\<forall>d<length nh. nh' ! d = (if int d \<in> set ns then int d else nh ! d))"
proof (induction ns arbitrary: nh packets)
  case Nil
  then show ?case by simp
next
  case (Cons n rest)
  have n: "0 \<le> n" "n < int (length nh)" using Cons.prems by auto
  let ?nh1 = "nh[nat n := n]"
  have step: "set_hops v nh packets (n # rest) = set_hops v ?nh1 (packets @ [Packet n v]) rest"
    using n by (simp add: setitem_nonneg)
  have "\<forall>m\<in>set rest. 0 \<le> m \<and> m < int (length ?nh1)" using Cons.prems by simp
  from Cons.IH[OF this, of "packets @ [Packet n v]"] obtain nh' where
    nh': "set_hops v ?nh1 (packets @ [Packet n v]) rest =
            Inr (nh', (packets @ [Packet n v]) @ map (\<lambda>neighbor. Packet neighbor v) rest)"
         "length nh' = length nh"
         "\<forall>d<length nh. nh' ! d = (if int d \<in> set rest then int d else ?nh1 ! d)"
    by auto
  have "\<forall>d<length nh. nh' ! d = (if int d \<in> set (n # rest) then int d else nh ! d)"
  proof (intro allI impI)
    fix d assume d: "d < length nh"
    show "nh' ! d = (if int d \<in> set (n # rest) then int d else nh ! d)"
      using nh'(3) d n by (cases "nat n = d") (auto simp: nth_list_update)
  qed
  with nh' step show ?case by auto
qed

lemma initialize_costs_good:
  assumes ok: "valid_links e nc"
  shows "\<exists>v nh. initialize_costs e nc =
       (e\<lparr>neighbors := Some (map fst nc), vector := Some v, next_hop := Some nh\<rparr>,
        Inr (map (\<lambda>neighbor. Packet neighbor v) (map fst nc))) \<and>
     int (length v) = number_of_entities e \<and> length nh = length v \<and>
     (\<forall>d<length v. v ! d = (case map_of (rev nc) (int d) of
                               None \<Rightarrow> if int d = index e then 0 else 999
                             | Some c \<Rightarrow> c)) \<and>
     (\<forall>d<length v. nh ! d = (if int d \<in> fst ` set nc then int d
                              else if int d = index e then index e else 0))"
proof -
  let ?N = "nat (number_of_entities e)"
  let ?v0 = "replicate ?N (999 :: int)" and ?nh0 = "replicate ?N (0 :: int)"
  have idx: "0 \<le> index e" "index e < int ?N" and
       ids: "\<forall>link\<in>set nc. 0 \<le> fst link \<and> fst link < int ?N"
    using ok by (auto simp: valid_links_def list_all_iff)
  let ?v1 = "?v0[nat (index e) := 0]" and ?nh1 = "?nh0[nat (index e) := index e]"
  have s1: "setitem ?v0 (index e) 0 = Inr ?v1" using idx by (simp add: setitem_nonneg)
  have s2: "setitem ?nh0 (index e) (index e) = Inr ?nh1" using idx by (simp add: setitem_nonneg)
  have "\<forall>link\<in>set nc. 0 \<le> fst link \<and> fst link < int (length ?v1)" using ids by simp
  from set_links_good[OF this] obtain v where
    v: "set_links ?v1 nc = Inr v" "length v = ?N"
       "\<forall>d<?N. v ! d = (case map_of (rev nc) (int d) of None \<Rightarrow> ?v1 ! d | Some c \<Rightarrow> c)"
    by auto
  have "\<forall>n\<in>set (map fst nc). 0 \<le> n \<and> n < int (length ?nh1)" using ids by simp
  from set_hops_good[OF this, of v "[]"] obtain nh where
    nh: "set_hops v ?nh1 [] (map fst nc) = Inr (nh, map (\<lambda>neighbor. Packet neighbor v) (map fst nc))"
        "length nh = ?N"
        "\<forall>d<?N. nh ! d = (if int d \<in> set (map fst nc) then int d else ?nh1 ! d)"
    by auto
  have res: "initialize_costs e nc =
       (e\<lparr>neighbors := Some (map fst nc), vector := Some v, next_hop := Some nh\<rparr>,
        Inr (map (\<lambda>neighbor. Packet neighbor v) (map fst nc)))"
    unfolding initialize_costs_def Let_def using s1 s2 v(1) nh(1) by simp
  have lv: "int (length v) = number_of_entities e" using v(2) idx by (simp split: if_splits)
  have pv: "\<forall>d<length v. v ! d = (case map_of (rev nc) (int d) of
                               None \<Rightarrow> if int d = index e then 0 else 999
                             | Some c \<Rightarrow> c)"
  proof (intro allI impI)
    fix d assume "d < length v"
    then have d: "d < ?N" using v(2) by simp
    have "?v1 ! d = (if int d = index e then 0 else 999)"
      using d idx by (cases "nat (index e) = d") (auto simp: nth_list_update)
    with v(3) d show "v ! d = (case map_of (rev nc) (int d) of
                               None \<Rightarrow> if int d = index e then 0 else 999
                             | Some c \<Rightarrow> c)"
      by (simp split: option.splits)
  qed
  have pn: "\<forall>d<length v. nh ! d = (if int d \<in> fst ` set nc then int d
                              else if int d = index e then index e else 0)"
  proof (intro allI impI)
    fix d assume "d < length v"
    then have d: "d < ?N" using v(2) by simp
    have "?nh1 ! d = (if int d = index e then index e else 0)"
      using d idx by (cases "nat (index e) = d") (auto simp: nth_list_update)
    with nh(3) d show "nh ! d = (if int d \<in> fst ` set nc then int d
                              else if int d = index e then index e else 0)"
      by simp
  qed
  have ln: "length nh = length v" using nh(2) v(2) by simp
  from res lv ln pv pn show ?thesis by blast
qed

section \<open>One call of update on an initialised node\<close>

lemma activeD:
  "active e \<Longrightarrow> \<exists>ns v nh. neighbors e = Some ns \<and> vector e = Some v \<and> next_hop e = Some nh \<and>
     int (length v) = number_of_entities e \<and> length nh = length v \<and>
     0 \<le> index e \<and> index e < number_of_entities e \<and>
     (\<forall>n\<in>set ns. 0 \<le> n \<and> n < number_of_entities e)"
  by (auto simp: active_def list_all_iff split: option.splits)

lemma activeI:
  "neighbors e = Some ns \<Longrightarrow> vector e = Some v \<Longrightarrow> next_hop e = Some nh \<Longrightarrow>
   int (length v) = number_of_entities e \<Longrightarrow> length nh = length v \<Longrightarrow>
   0 \<le> index e \<Longrightarrow> index e < number_of_entities e \<Longrightarrow>
   (\<forall>n\<in>set ns. 0 \<le> n \<and> n < number_of_entities e) \<Longrightarrow> active e"
  by (simp add: active_def list_all_iff)

lemma range_of_length: "int (length v) = n \<Longrightarrow> range_of n = [0 ..< length v]"
  by (auto simp: range_of_def)

lemma update_good:
  assumes v: "vector e = Some v" and nh: "next_hop e = Some nh" and ns: "neighbors e = Some ns"
    and len: "int (length v) = number_of_entities e" "length nh = length v"
    and src: "source p = Some s" "0 \<le> s" "s < number_of_entities e"
    and cs: "length (costs p) = length v"
  shows "\<exists>v' nh'. update e p =
       (e\<lparr>vector := Some v', next_hop := Some nh'\<rparr>,
        Inr (if \<exists>d<length v. costs p ! d + v ! nat s < v ! d
             then map (\<lambda>neighbor. Packet neighbor v') ns else [])) \<and>
     length v' = length v \<and> length nh' = length v \<and>
     (\<forall>d<length v.
        (costs p ! d + v ! nat s < v ! d \<longrightarrow> v' ! d = costs p ! d + v ! nat s \<and> nh' ! d = s) \<and>
        (\<not> costs p ! d + v ! nat s < v ! d \<longrightarrow> v' ! d = v ! d \<and> nh' ! d = nh ! d))"
proof -
  let ?ni = "map (\<lambda>x. x + v ! nat s) (costs p)"
  have ne: "costs p \<noteq> []" using cs len src by auto
  have gs: "getitem v s = Inr (v ! nat s)"
    using src len by (simp add: getitem_def py_index_nonneg)
  have ni: "new_info_of e p = Inr ?ni"
    using ne v src(1) gs by (simp add: new_info_of_def)
  have rng: "range_of (number_of_entities e) = [0 ..< length v]"
    using len(1) by (rule range_of_length)
  have "\<forall>i\<in>set [0 ..< length v]. i < length v \<and> i < length ?ni" using cs by simp
  from relax_good[OF v nh len(2) this, of s False] obtain v' nh' where
    r: "relax ?ni s e False [0 ..< length v] =
          (e\<lparr>vector := Some v', next_hop := Some nh'\<rparr>,
           Inr (False \<or> (\<exists>i\<in>set [0 ..< length v]. ?ni ! i < v ! i)))"
    and l: "length v' = length v" "length nh' = length v"
    and pt: "\<forall>d<length v.
        (d \<in> set [0 ..< length v] \<and> ?ni ! d < v ! d \<longrightarrow> v' ! d = ?ni ! d \<and> nh' ! d = s) \<and>
        (\<not> (d \<in> set [0 ..< length v] \<and> ?ni ! d < v ! d) \<longrightarrow> v' ! d = v ! d \<and> nh' ! d = nh ! d)"
    by blast
  have flag: "(\<exists>i\<in>set [0 ..< length v]. ?ni ! i < v ! i) = (\<exists>d<length v. costs p ! d + v ! nat s < v ! d)"
    using cs by auto
  have bc: "broadcast (e\<lparr>vector := Some v', next_hop := Some nh'\<rparr>) = Inr (map (\<lambda>neighbor. Packet neighbor v') ns)"
    using ns by (simp add: broadcast_def)
  have upd: "update e p =
       (e\<lparr>vector := Some v', next_hop := Some nh'\<rparr>,
        Inr (if \<exists>d<length v. costs p ! d + v ! nat s < v ! d
             then map (\<lambda>neighbor. Packet neighbor v') ns else []))"
    unfolding update_def using ni src(1) rng r flag bc by auto
  have pt': "\<forall>d<length v.
        (costs p ! d + v ! nat s < v ! d \<longrightarrow> v' ! d = costs p ! d + v ! nat s \<and> nh' ! d = s) \<and>
        (\<not> costs p ! d + v ! nat s < v ! d \<longrightarrow> v' ! d = v ! d \<and> nh' ! d = nh ! d)"
    using pt cs by simp
  from upd l pt' show ?thesis by blast
qed

section \<open>Any call of update, and any run of them\<close>

lemma new_info_of_elems:
  assumes v: "vector e = Some v" and ni: "new_info_of e p = Inr ni"
  shows "\<forall>y\<in>set ni. \<exists>x\<in>set (costs p). \<exists>c\<in>set v. y = x + c"
proof (cases "costs p = []")
  case True
  with ni show ?thesis by (simp add: new_info_of_def)
next
  case False
  with v ni obtain s j where j: "py_index v s = Some j" "ni = map (\<lambda>x. x + v ! j) (costs p)"
    by (auto simp: new_info_of_def getitem_def split: option.splits)
  from j(1) have "v ! j \<in> set v" by (simp add: py_index_less)
  with j(2) show ?thesis by auto
qed

lemma update_fst:
  "fst (update e p) = e \<or>
   (\<exists>ni src. new_info_of e p = Inr ni \<and>
      fst (update e p) = fst (relax ni src e False (range_of (number_of_entities e))))"
proof (cases "new_info_of e p")
  case (Inl err)
  then show ?thesis by (simp add: update_def)
next
  case (Inr ni)
  show ?thesis
  proof (cases "source p")
    case None
    with Inr show ?thesis by (simp add: update_def)
  next
    case (Some src)
    have "fst (update e p) = fst (relax ni src e False (range_of (number_of_entities e)))"
      using Inr Some by (simp add: update_def split: prod.splits sum.splits)
    with Inr show ?thesis by blast
  qed
qed

lemma update_frame:
  "index (fst (update e p)) = index e \<and>
   number_of_entities (fst (update e p)) = number_of_entities e \<and>
   neighbors (fst (update e p)) = neighbors e"
  using update_fst[of e p] relax_frame by auto

lemma update_vector_rel:
  assumes v: "vector e = Some v"
  shows "\<exists>v'. vector (fst (update e p)) = Some v' \<and> length v' = length v \<and>
     (\<forall>d<length v. v' ! d = v ! d \<or>
        (v' ! d < v ! d \<and> (\<exists>x\<in>set (costs p). \<exists>c\<in>set v. v' ! d = x + c)))"
proof -
  from update_fst[of e p] consider
    (same) "fst (update e p) = e" |
    (loop) ni src where "new_info_of e p = Inr ni"
      "fst (update e p) = fst (relax ni src e False (range_of (number_of_entities e)))"
    by blast
  then show ?thesis
  proof cases
    case same
    with v show ?thesis by simp
  next
    case loop
    from relax_vector_rel[OF v, of ni src False "range_of (number_of_entities e)"]
    obtain v' where v': "vector (fst (update e p)) = Some v'" "length v' = length v"
      "\<forall>d<length v. v' ! d = v ! d \<or> (v' ! d < v ! d \<and> v' ! d \<in> set ni)"
      using loop(2) by auto
    have "\<forall>d<length v. v' ! d = v ! d \<or>
        (v' ! d < v ! d \<and> (\<exists>x\<in>set (costs p). \<exists>c\<in>set v. v' ! d = x + c))"
      using v'(3) new_info_of_elems[OF v loop(1)] by blast
    with v' show ?thesis by blast
  qed
qed

lemma deliver_frame:
  "index (deliver e ps) = index e \<and>
   number_of_entities (deliver e ps) = number_of_entities e \<and>
   neighbors (deliver e ps) = neighbors e"
  by (induction ps arbitrary: e) (simp_all add: update_frame)

lemma deliver_append: "deliver e (ps @ qs) = deliver (deliver e ps) qs"
  by (induction ps arbitrary: e) simp_all

lemma deliver_non_increasing:
  "vector e = Some v \<Longrightarrow>
   \<exists>v'. vector (deliver e ps) = Some v' \<and> length v' = length v \<and> (\<forall>d<length v. v' ! d \<le> v ! d)"
proof (induction ps arbitrary: e v)
  case Nil
  then show ?case by simp
next
  case (Cons p ps)
  from update_vector_rel[OF Cons.prems, of p] obtain v1 where
    v1: "vector (fst (update e p)) = Some v1" "length v1 = length v" "\<forall>d<length v. v1 ! d \<le> v ! d"
    by fastforce
  from Cons.IH[OF v1(1)] obtain v' where
    "vector (deliver (fst (update e p)) ps) = Some v'" "length v' = length v1"
    "\<forall>d<length v1. v' ! d \<le> v1 ! d"
    by blast
  with v1 show ?case by fastforce
qed

lemma deliver_upper_bound:
  "vector e = Some v \<Longrightarrow> \<forall>x\<in>set v. x \<le> b \<Longrightarrow>
   \<exists>v'. vector (deliver e ps) = Some v' \<and> length v' = length v \<and> (\<forall>x\<in>set v'. x \<le> b)"
proof -
  assume v: "vector e = Some v" and b: "\<forall>x\<in>set v. x \<le> b"
  from deliver_non_increasing[OF v, of ps] obtain v' where
    v': "vector (deliver e ps) = Some v'" "length v' = length v" "\<forall>d<length v. v' ! d \<le> v ! d"
    by blast
  have "\<forall>x\<in>set v'. x \<le> b"
  proof
    fix x assume "x \<in> set v'"
    then obtain d where d: "d < length v'" "x = v' ! d" by (auto simp: in_set_conv_nth)
    then have "v' ! d \<le> v ! d" "v ! d \<in> set v" using v' by auto
    with b d show "x \<le> b" by fastforce
  qed
  with v' show ?thesis by blast
qed

lemma update_self_cost:
  assumes v: "vector e = Some v" and nn: "\<forall>x\<in>set v. 0 \<le> x"
    and i: "i < length v" "v ! i = 0" and cs: "\<forall>x\<in>set (costs p). 0 \<le> x"
  shows "\<exists>v'. vector (fst (update e p)) = Some v' \<and> length v' = length v \<and>
     (\<forall>x\<in>set v'. 0 \<le> x) \<and> v' ! i = 0"
proof -
  from update_vector_rel[OF v, of p] obtain v' where
    v': "vector (fst (update e p)) = Some v'" "length v' = length v"
      "\<forall>d<length v. v' ! d = v ! d \<or>
        (v' ! d < v ! d \<and> (\<exists>x\<in>set (costs p). \<exists>c\<in>set v. v' ! d = x + c))"
    by blast
  have ge: "\<forall>d<length v. 0 \<le> v' ! d"
  proof (intro allI impI)
    fix d assume d: "d < length v"
    then have "0 \<le> v ! d" using nn by simp
    moreover have "\<And>x c. x \<in> set (costs p) \<Longrightarrow> c \<in> set v \<Longrightarrow> 0 \<le> x + c"
      using nn cs by (simp add: add_nonneg_nonneg)
    ultimately show "0 \<le> v' ! d" using v'(3) d by fastforce
  qed
  then have "\<forall>x\<in>set v'. 0 \<le> x" using v'(2) by (auto simp: in_set_conv_nth)
  moreover have "v' ! i = 0" using v'(3) i ge by fastforce
  ultimately show ?thesis using v' by blast
qed

lemma deliver_self_cost:
  "vector e = Some v \<Longrightarrow> \<forall>x\<in>set v. 0 \<le> x \<Longrightarrow> i < length v \<Longrightarrow> v ! i = 0 \<Longrightarrow>
   \<forall>p\<in>set ps. \<forall>x\<in>set (costs p). 0 \<le> x \<Longrightarrow>
   \<exists>v'. vector (deliver e ps) = Some v' \<and> length v' = length v \<and> v' ! i = 0"
proof (induction ps arbitrary: e v)
  case Nil
  then show ?case by simp
next
  case (Cons p ps)
  have "\<forall>x\<in>set (costs p). 0 \<le> x" using Cons.prems(5) by simp
  from update_self_cost[OF Cons.prems(1,2,3,4) this] obtain v1 where
    v1: "vector (fst (update e p)) = Some v1" "length v1 = length v"
        "\<forall>x\<in>set v1. 0 \<le> x" "v1 ! i = 0"
    by blast
  have "i < length v1" using v1(2) Cons.prems(3) by simp
  moreover have "\<forall>q\<in>set ps. \<forall>x\<in>set (costs q). 0 \<le> x" using Cons.prems(5) by simp
  ultimately obtain v' where
    "vector (deliver (fst (update e p)) ps) = Some v'" "length v' = length v1" "v' ! i = 0"
    using Cons.IH[OF v1(1) v1(3) _ v1(4)] by blast
  with v1(2) show ?case by simp
qed

section \<open>Next hops follow the costs; initialised nodes stay initialised\<close>

lemma relax_hop_rel:
  "vector e = Some v \<Longrightarrow> next_hop e = Some nh \<Longrightarrow>
   \<exists>v' nh'. vector (fst (relax ni s e u is)) = Some v' \<and>
     next_hop (fst (relax ni s e u is)) = Some nh' \<and>
     length v' = length v \<and> length nh' = length nh \<and>
     (\<forall>d<length v. v' ! d \<le> v ! d) \<and>
     (\<forall>d<length nh. nh' ! d \<noteq> nh ! d \<longrightarrow> d < length v \<and> v' ! d < v ! d)"
proof (induction "is" arbitrary: e v nh u)
  case Nil
  then show ?case by simp
next
  case (Cons i rest)
  show ?case
  proof (cases "i < length ni \<and> i < length v \<and> ni ! i < v ! i")
    case False
    have "relax ni s e u (i # rest) = relax ni s e u rest \<or> fst (relax ni s e u (i # rest)) = e"
      using False Cons.prems(1) by (auto simp: getitem_nat split: option.splits)
    then show ?thesis
    proof
      assume "relax ni s e u (i # rest) = relax ni s e u rest"
      with Cons.IH[OF Cons.prems, of u] show ?thesis by simp
    next
      assume "fst (relax ni s e u (i # rest)) = e"
      with Cons.prems show ?thesis by simp
    qed
  next
    case True
    let ?v1 = "v[i := ni ! i]"
    let ?e1 = "e\<lparr>vector := Some ?v1\<rparr>"
    show ?thesis
    proof (cases "i < length nh")
      case False
      have "fst (relax ni s e u (i # rest)) = ?e1"
        using True False Cons.prems by (simp add: getitem_nat setitem_nat)
      moreover have "\<forall>d<length v. ?v1 ! d \<le> v ! d"
        using True by (auto simp: nth_list_update)
      ultimately show ?thesis using Cons.prems by simp
    next
      case inh: True
      let ?nh1 = "nh[i := s]"
      let ?e2 = "e\<lparr>vector := Some ?v1, next_hop := Some ?nh1\<rparr>"
      have step: "relax ni s e u (i # rest) = relax ni s ?e2 True rest"
        using True inh Cons.prems by (simp add: getitem_nat setitem_nat)
      from Cons.IH[of ?e2 ?v1 ?nh1 True] obtain v' nh' where
        r: "vector (fst (relax ni s ?e2 True rest)) = Some v'"
           "next_hop (fst (relax ni s ?e2 True rest)) = Some nh'"
           "length v' = length v" "length nh' = length nh"
        and le: "\<forall>d<length v. v' ! d \<le> ?v1 ! d"
        and hop: "\<forall>d<length nh. nh' ! d \<noteq> ?nh1 ! d \<longrightarrow> d < length v \<and> v' ! d < ?v1 ! d"
        by auto
      have le': "\<forall>d<length v. v' ! d \<le> v ! d"
      proof (intro allI impI)
        fix d assume d: "d < length v"
        with le have "v' ! d \<le> ?v1 ! d" by simp
        moreover have "?v1 ! d \<le> v ! d" using True d by (auto simp: nth_list_update)
        ultimately show "v' ! d \<le> v ! d" by simp
      qed
      have hop': "\<forall>d<length nh. nh' ! d \<noteq> nh ! d \<longrightarrow> d < length v \<and> v' ! d < v ! d"
      proof (intro allI impI)
        fix d assume d: "d < length nh" and ne: "nh' ! d \<noteq> nh ! d"
        show "d < length v \<and> v' ! d < v ! d"
        proof (cases "d = i")
          case True
          have iv: "i < length v" "ni ! i < v ! i"
            using \<open>i < length ni \<and> i < length v \<and> ni ! i < v ! i\<close> by simp_all
          from le iv(1) have "v' ! i \<le> ?v1 ! i" by blast
          then have "v' ! i \<le> ni ! i" using iv(1) by simp
          then show ?thesis using True iv by simp
        next
          case False
          then have "nh' ! d \<noteq> ?nh1 ! d" using ne by simp
          with hop d have "d < length v" "v' ! d < ?v1 ! d" by simp_all
          then show ?thesis using False by simp
        qed
      qed
      from r le' hop' show ?thesis unfolding step by blast
    qed
  qed
qed

lemma update_hop_rel:
  assumes v: "vector e = Some v" and nh: "next_hop e = Some nh"
  shows "\<exists>v' nh'. vector (fst (update e p)) = Some v' \<and> next_hop (fst (update e p)) = Some nh' \<and>
     length v' = length v \<and> length nh' = length nh \<and>
     (\<forall>d<length v. v' ! d \<le> v ! d) \<and>
     (\<forall>d<length nh. nh' ! d \<noteq> nh ! d \<longrightarrow> d < length v \<and> v' ! d < v ! d)"
proof -
  from update_fst[of e p] consider
    (same) "fst (update e p) = e" |
    (loop) ni src where "fst (update e p) = fst (relax ni src e False (range_of (number_of_entities e)))"
    by blast
  then show ?thesis
  proof cases
    case same
    with v nh show ?thesis by simp
  next
    case loop
    from relax_hop_rel[OF v nh, of ni src False "range_of (number_of_entities e)"]
    show ?thesis unfolding loop .
  qed
qed

lemma update_active: "active e \<Longrightarrow> active (fst (update e p))"
proof -
  assume a: "active e"
  from activeD[OF a] obtain ns v nh where
    f: "neighbors e = Some ns" "vector e = Some v" "next_hop e = Some nh"
       "int (length v) = number_of_entities e" "length nh = length v"
       "0 \<le> index e" "index e < number_of_entities e"
       "\<forall>n\<in>set ns. 0 \<le> n \<and> n < number_of_entities e"
    by blast
  from update_hop_rel[OF f(2,3), of p] obtain v' nh' where
    r: "vector (fst (update e p)) = Some v'" "next_hop (fst (update e p)) = Some nh'"
       "length v' = length v" "length nh' = length nh"
    by blast
  show ?thesis
    by (rule activeI[where ns = ns and v = v' and nh = nh'])
       (use f r update_frame[of e p] in simp_all)
qed

lemma deliver_active: "active e \<Longrightarrow> active (deliver e ps)"
  by (induction ps arbitrary: e) (simp_all add: update_active)

lemma initialize_costs_active:
  "valid_links e nc \<Longrightarrow> active (fst (initialize_costs e nc))"
proof -
  assume ok: "valid_links e nc"
  from initialize_costs_good[OF ok] obtain v nh where
    r: "initialize_costs e nc =
       (e\<lparr>neighbors := Some (map fst nc), vector := Some v, next_hop := Some nh\<rparr>,
        Inr (map (\<lambda>neighbor. Packet neighbor v) (map fst nc)))"
    and l: "int (length v) = number_of_entities e" "length nh = length v"
    by blast
  show ?thesis
    unfolding r
    by (rule activeI[where ns = "map fst nc" and v = v and nh = nh])
       (use ok l in \<open>auto simp: valid_links_def list_all_iff\<close>)
qed

lemma deliver_hop_kept:
  "vector e = Some v \<Longrightarrow> next_hop e = Some nh \<Longrightarrow> d < length v \<Longrightarrow> d < length nh \<Longrightarrow>
   \<exists>v' nh'. vector (deliver e ps) = Some v' \<and> next_hop (deliver e ps) = Some nh' \<and>
     length v' = length v \<and> length nh' = length nh \<and> v' ! d \<le> v ! d \<and>
     (v' ! d = v ! d \<longrightarrow> nh' ! d = nh ! d)"
proof (induction ps arbitrary: e v nh)
  case Nil
  then show ?case by simp
next
  case (Cons p ps)
  from update_hop_rel[OF Cons.prems(1,2), of p] obtain v1 nh1 where
    r1: "vector (fst (update e p)) = Some v1" "next_hop (fst (update e p)) = Some nh1"
        "length v1 = length v" "length nh1 = length nh"
    and le1: "v1 ! d \<le> v ! d"
    and hop1: "nh1 ! d \<noteq> nh ! d \<longrightarrow> v1 ! d < v ! d"
    using Cons.prems(3,4) by blast
  have d1: "d < length v1" "d < length nh1" using r1 Cons.prems(3,4) by simp_all
  from Cons.IH[OF r1(1,2) d1] obtain v' nh' where
    r: "vector (deliver (fst (update e p)) ps) = Some v'"
       "next_hop (deliver (fst (update e p)) ps) = Some nh'"
       "length v' = length v1" "length nh' = length nh1"
    and le: "v' ! d \<le> v1 ! d"
    and hop: "v' ! d = v1 ! d \<longrightarrow> nh' ! d = nh1 ! d"
    by blast
  have "v' ! d \<le> v ! d" using le le1 by simp
  moreover have "v' ! d = v ! d \<longrightarrow> nh' ! d = nh ! d" using le le1 hop hop1 by auto
  ultimately show ?case using r r1 by simp
qed

section \<open>The triangle, computed\<close>

lemma node_A_eq:
  "node_A = \<lparr>index = 0, number_of_entities = 3, neighbors = Some [1, 2],
             vector = Some [0, 1, 5], next_hop = Some [0, 1, 2]\<rparr>"
  unfolding node_A_def by code_simp

lemma node_A_active: "active node_A"
  unfolding node_A_eq by (simp add: active_def)

lemma update_node_A:
  "update node_A from_B =
     (\<lparr>index = 0, number_of_entities = 3, neighbors = Some [1, 2],
       vector = Some [0, 1, 2], next_hop = Some [0, 1, 1]\<rparr>,
      Inr [Packet 1 [0, 1, 2], Packet 2 [0, 1, 2]])"
  unfolding node_A_eq from_B_def by code_simp

section \<open>Two more facts the claims share\<close>

lemma update_no_improvement:
  assumes v: "vector e = Some v" and nh: "next_hop e = Some nh" and ns: "neighbors e = Some ns"
    and len: "int (length v) = number_of_entities e" "length nh = length v"
    and src: "source p = Some s" "0 \<le> s" "s < number_of_entities e"
    and cs: "length (costs p) = length v"
    and no: "\<forall>d<length v. \<not> costs p ! d + v ! nat s < v ! d"
  shows "update e p = (e, Inr [])"
proof -
  from update_good[OF v nh ns len src cs] obtain v' nh' where
    u: "update e p =
       (e\<lparr>vector := Some v', next_hop := Some nh'\<rparr>,
        Inr (if \<exists>d<length v. costs p ! d + v ! nat s < v ! d
             then map (\<lambda>neighbor. Packet neighbor v') ns else []))"
    and l: "length v' = length v" "length nh' = length v"
    and pt: "\<forall>d<length v.
        (costs p ! d + v ! nat s < v ! d \<longrightarrow> v' ! d = costs p ! d + v ! nat s \<and> nh' ! d = s) \<and>
        (\<not> costs p ! d + v ! nat s < v ! d \<longrightarrow> v' ! d = v ! d \<and> nh' ! d = nh ! d)"
    by blast
  have "v' = v" using l(1) pt no by (intro nth_equalityI) auto
  moreover have "nh' = nh" using l(2) len(2) pt no by (intro nth_equalityI) auto
  moreover have "e\<lparr>vector := Some v, next_hop := Some nh\<rparr> = e" using v nh by simp
  ultimately show ?thesis using u no by auto
qed

lemma initialize_costs_vector:
  assumes "valid_links e nc"
  shows "\<exists>v. vector (fst (initialize_costs e nc)) = Some v \<and>
     int (length v) = number_of_entities e \<and>
     (\<forall>d<length v. v ! d = (case map_of (rev nc) (int d) of
                               None \<Rightarrow> if int d = index e then 0 else 999
                             | Some c \<Rightarrow> c))"
  using initialize_costs_good[OF assms] by fastforce

section \<open>The claims\<close>

text \<open>
  Claim C1. On an initialised node, for a packet whose cost list has one entry per entity
  and whose source is one of the node's neighbours, \<open>update\<close> returns normally and
  relaxes every destination \<open>d\<close> in \<open>[0, N)\<close>: the candidate is
  \<open>costs[d] + vector[source]\<close>, with the node's cost to the source as it was when the
  call started; exactly when the candidate is strictly smaller than \<open>vector[d]\<close> both
  \<open>vector[d]\<close> becomes the candidate and \<open>next_hop[d]\<close> becomes the source;
  otherwise both entries are as before.
\<close>
theorem update_bellman_ford:
  assumes "active e" and "vector e = Some v" and "next_hop e = Some nh"
    and "neighbors e = Some ns" and "source p = Some s" and "s \<in> set ns"
    and "int (length (costs p)) = number_of_entities e"
  shows "\<exists>e' packets v' nh'.
     update e p = (e', Inr packets) \<and> vector e' = Some v' \<and> next_hop e' = Some nh' \<and>
     length v' = length v \<and> length nh' = length nh \<and>
     (\<forall>d<length v.
        if costs p ! d + v ! nat s < v ! d
        then v' ! d = costs p ! d + v ! nat s \<and> nh' ! d = s
        else v' ! d = v ! d \<and> nh' ! d = nh ! d)"
proof -
  from activeD[OF assms(1)] assms(2,3,4) have
    len: "int (length v) = number_of_entities e" "length nh = length v"
    and nsr: "\<forall>n\<in>set ns. 0 \<le> n \<and> n < number_of_entities e"
    by auto
  have s: "0 \<le> s" "s < number_of_entities e" using nsr assms(6) by auto
  have cs: "length (costs p) = length v" using assms(7) len(1) by simp
  from update_good[OF assms(2,3,4) len assms(5) s cs] obtain v' nh' where
    u: "update e p =
       (e\<lparr>vector := Some v', next_hop := Some nh'\<rparr>,
        Inr (if \<exists>d<length v. costs p ! d + v ! nat s < v ! d
             then map (\<lambda>neighbor. Packet neighbor v') ns else []))"
    and l: "length v' = length v" "length nh' = length v"
    and pt: "\<forall>d<length v.
        (costs p ! d + v ! nat s < v ! d \<longrightarrow> v' ! d = costs p ! d + v ! nat s \<and> nh' ! d = s) \<and>
        (\<not> costs p ! d + v ! nat s < v ! d \<longrightarrow> v' ! d = v ! d \<and> nh' ! d = nh ! d)"
    by blast
  let ?e' = "e\<lparr>vector := Some v', next_hop := Some nh'\<rparr>"
  let ?packets = "if \<exists>d<length v. costs p ! d + v ! nat s < v ! d
             then map (\<lambda>neighbor. Packet neighbor v') ns else []"
  have main: "update e p = (?e', Inr ?packets) \<and> vector ?e' = Some v' \<and> next_hop ?e' = Some nh' \<and>
     length v' = length v \<and> length nh' = length nh \<and>
     (\<forall>d<length v.
        if costs p ! d + v ! nat s < v ! d
        then v' ! d = costs p ! d + v ! nat s \<and> nh' ! d = s
        else v' ! d = v ! d \<and> nh' ! d = nh ! d)"
    using u l len(2) pt by simp
  show ?thesis
    by (rule exI[of _ ?e'], rule exI[of _ ?packets], rule exI[of _ v'], rule exI[of _ nh'])
       (rule main)
qed

theorem update_bellman_ford_witness:
  "active node_A \<and> vector node_A = Some [0, 1, 5] \<and> next_hop node_A = Some [0, 1, 2] \<and>
   neighbors node_A = Some [1, 2] \<and> source from_B = Some 1 \<and> (1::int) \<in> set [1, 2] \<and>
   int (length (costs from_B)) = number_of_entities node_A \<and>
   (\<exists>e' packets v' nh'.
     update node_A from_B = (e', Inr packets) \<and> vector e' = Some v' \<and> next_hop e' = Some nh' \<and>
     length v' = length [0, 1, 5 :: int] \<and> length nh' = length [0, 1, 2 :: int] \<and>
     (\<forall>d<length [0, 1, 5 :: int].
        if costs from_B ! d + [0, 1, 5] ! nat 1 < [0, 1, 5] ! d
        then v' ! d = costs from_B ! d + [0, 1, 5] ! nat 1 \<and> nh' ! d = 1
        else v' ! d = [0, 1, 5] ! d \<and> nh' ! d = [0, 1, 2] ! d))"
proof -
  have h1: "active node_A" by (rule node_A_active)
  have h2: "vector node_A = Some [0, 1, 5]" by (simp add: node_A_eq)
  have h3: "next_hop node_A = Some [0, 1, 2]" by (simp add: node_A_eq)
  have h4: "neighbors node_A = Some [1, 2]" by (simp add: node_A_eq)
  have h5: "source from_B = Some 1" by (simp add: from_B_def)
  have h6: "(1::int) \<in> set [1, 2]" by simp
  have h7: "int (length (costs from_B)) = number_of_entities node_A"
    by (simp add: from_B_def node_A_eq)
  from update_bellman_ford[OF h1 h2 h3 h4 h5 h6 h7] h1 h2 h3 h4 h5 h6 h7
  show ?thesis by blast
qed

text \<open>
  Claim C2. On an initialised node, for a full-length packet from a neighbour,
  \<open>update\<close> returns a non-empty list exactly when some candidate
  \<open>costs[d] + vector[source]\<close> is strictly below \<open>vector[d]\<close>, which is exactly when
  some entry of the vector became strictly smaller. The vector after the call is the
  entrywise minimum of the old vector and the candidates. When an entry improved, the list
  holds one packet per neighbour, in the order of \<open>self.neighbors\<close>, each carrying the
  whole updated vector. When none improved, the entity is exactly as before and the list is
  empty. A packet with non-negative costs that was just absorbed improves nothing when
  delivered again: no change and no output.
\<close>

theorem update_broadcast_or_silence:
  assumes "active e" and "vector e = Some v" and "neighbors e = Some ns"
    and "source p = Some s" and "s \<in> set ns"
    and "int (length (costs p)) = number_of_entities e"
  shows "\<exists>e' packets v'.
     update e p = (e', Inr packets) \<and> vector e' = Some v' \<and> length v' = length v \<and>
     (\<forall>d<length v. v' ! d = min (v ! d) (costs p ! d + v ! nat s)) \<and>
     (packets \<noteq> [] \<longleftrightarrow> (\<exists>d<length v. costs p ! d + v ! nat s < v ! d)) \<and>
     ((\<exists>d<length v. costs p ! d + v ! nat s < v ! d) \<longleftrightarrow> (\<exists>d<length v. v' ! d < v ! d)) \<and>
     ((\<exists>d<length v. costs p ! d + v ! nat s < v ! d)
        \<longrightarrow> packets = map (\<lambda>neighbor. Packet neighbor v') ns) \<and>
     ((\<forall>d<length v. \<not> costs p ! d + v ! nat s < v ! d) \<longrightarrow> e' = e \<and> packets = []) \<and>
     ((\<forall>x\<in>set (costs p). 0 \<le> x) \<longrightarrow> update e' p = (e', Inr []))"
proof -
  from activeD[OF assms(1)] assms(2,3) obtain nh where
    nh: "next_hop e = Some nh"
    and len: "int (length v) = number_of_entities e" "length nh = length v"
    and nsr: "\<forall>n\<in>set ns. 0 \<le> n \<and> n < number_of_entities e"
    by auto
  have s: "0 \<le> s" "s < number_of_entities e" using nsr assms(5) by auto
  have cs: "length (costs p) = length v" using assms(6) len(1) by simp
  have sv: "nat s < length v" using s len(1) by simp
  let ?imp = "\<exists>d<length v. costs p ! d + v ! nat s < v ! d"
  from update_good[OF assms(2) nh assms(3) len assms(4) s cs] obtain v' nh' where
    u: "update e p =
       (e\<lparr>vector := Some v', next_hop := Some nh'\<rparr>,
        Inr (if ?imp then map (\<lambda>neighbor. Packet neighbor v') ns else []))"
    and l: "length v' = length v" "length nh' = length v"
    and pt: "\<forall>d<length v.
        (costs p ! d + v ! nat s < v ! d \<longrightarrow> v' ! d = costs p ! d + v ! nat s \<and> nh' ! d = s) \<and>
        (\<not> costs p ! d + v ! nat s < v ! d \<longrightarrow> v' ! d = v ! d \<and> nh' ! d = nh ! d)"
    by blast
  let ?e' = "e\<lparr>vector := Some v', next_hop := Some nh'\<rparr>"
  let ?packets = "if ?imp then map (\<lambda>neighbor. Packet neighbor v') ns else []"
  have c0: "\<forall>d<length v. v' ! d = min (v ! d) (costs p ! d + v ! nat s)"
    using pt by (auto simp: min_def)
  have imp: "?imp \<longleftrightarrow> (\<exists>d<length v. v' ! d < v ! d)"
    using pt by (metis less_irrefl)
  have nsne: "ns \<noteq> []" using assms(5) by auto
  have c1: "?packets \<noteq> [] \<longleftrightarrow> ?imp"
    using nsne by simp
  have c2: "?imp \<longrightarrow> ?packets = map (\<lambda>neighbor. Packet neighbor v') ns"
    by simp
  have c3: "(\<forall>d<length v. \<not> costs p ! d + v ! nat s < v ! d) \<longrightarrow> ?e' = e \<and> ?packets = []"
  proof
    assume no: "\<forall>d<length v. \<not> costs p ! d + v ! nat s < v ! d"
    from update_no_improvement[OF assms(2) nh assms(3) len assms(4) s cs no] u
    show "?e' = e \<and> ?packets = []" by simp
  qed
  have c4: "(\<forall>x\<in>set (costs p). 0 \<le> x) \<longrightarrow> update ?e' p = (?e', Inr [])"
  proof
    assume nn: "\<forall>x\<in>set (costs p). 0 \<le> x"
    have "0 \<le> costs p ! nat s" using nn sv cs by simp
    then have keep: "v' ! nat s = v ! nat s" using pt sv by auto
    have no: "\<forall>d<length v'. \<not> costs p ! d + v' ! nat s < v' ! d"
      unfolding keep using pt l(1) by auto
    show "update ?e' p = (?e', Inr [])"
      by (rule update_no_improvement[where v = v' and nh = nh' and ns = ns and s = s])
         (use assms(3,4) s cs l len no in simp_all)
  qed
  have main: "update e p = (?e', Inr ?packets) \<and> vector ?e' = Some v' \<and> length v' = length v \<and>
     (\<forall>d<length v. v' ! d = min (v ! d) (costs p ! d + v ! nat s)) \<and>
     (?packets \<noteq> [] \<longleftrightarrow> ?imp) \<and>
     (?imp \<longleftrightarrow> (\<exists>d<length v. v' ! d < v ! d)) \<and>
     (?imp \<longrightarrow> ?packets = map (\<lambda>neighbor. Packet neighbor v') ns) \<and>
     ((\<forall>d<length v. \<not> costs p ! d + v ! nat s < v ! d) \<longrightarrow> ?e' = e \<and> ?packets = []) \<and>
     ((\<forall>x\<in>set (costs p). 0 \<le> x) \<longrightarrow> update ?e' p = (?e', Inr []))"
    using u l(1) c0 c1 imp c2 c3 c4 by simp
  show ?thesis
    by (rule exI[of _ ?e'], rule exI[of _ ?packets], rule exI[of _ v']) (rule main)
qed

text \<open>
  At node A of the triangle the vector of B improves the entry for C, and A sends its new
  vector to both neighbours.
\<close>

theorem update_broadcast_or_silence_witness:
  "active node_A \<and> vector node_A = Some [0, 1, 5] \<and> neighbors node_A = Some [1, 2] \<and>
   source from_B = Some 1 \<and> (1::int) \<in> set [1, 2] \<and>
   int (length (costs from_B)) = number_of_entities node_A \<and>
   costs from_B ! 2 + [0, 1, 5] ! nat 1 < ([0, 1, 5] ! 2 :: int) \<and>
   (\<exists>e'. update node_A from_B = (e', Inr [Packet 1 [0, 1, 2], Packet 2 [0, 1, 2]]) \<and>
      vector e' = Some [0, 1, 2] \<and> update e' from_B = (e', Inr []))"
proof -
  have h1: "active node_A" by (rule node_A_active)
  have h2: "vector node_A = Some [0, 1, 5]" by (simp add: node_A_eq)
  have h3: "neighbors node_A = Some [1, 2]" by (simp add: node_A_eq)
  have h4: "source from_B = Some 1" by (simp add: from_B_def)
  have h5: "(1::int) \<in> set [1, 2]" by simp
  have h6: "int (length (costs from_B)) = number_of_entities node_A"
    by (simp add: from_B_def node_A_eq)
  have better: "costs from_B ! 2 + [0, 1, 5] ! nat 1 < ([0, 1, 5] ! 2 :: int)"
    by (simp add: from_B_def)
  have imp: "\<exists>d<length [0, 1, 5 :: int]. costs from_B ! d + [0, 1, 5] ! nat 1 < [0, 1, 5] ! d"
    using better by (intro exI[of _ 2]) simp
  have nn: "\<forall>x\<in>set (costs from_B). 0 \<le> x" by (simp add: from_B_def)
  from update_broadcast_or_silence[OF h1 h2 h3 h4 h5 h6] obtain e' packets v' where
    u: "update node_A from_B = (e', Inr packets)" and v': "vector e' = Some v'"
    and lv: "length v' = length [0, 1, 5 :: int]"
    and pt: "\<forall>d<length [0, 1, 5 :: int]. v' ! d = min ([0, 1, 5] ! d) (costs from_B ! d + [0, 1, 5] ! nat 1)"
    and pk: "(\<exists>d<length [0, 1, 5 :: int]. costs from_B ! d + [0, 1, 5] ! nat 1 < [0, 1, 5] ! d)
        \<longrightarrow> packets = map (\<lambda>neighbor. Packet neighbor v') [1, 2]"
    and again: "(\<forall>x\<in>set (costs from_B). 0 \<le> x) \<longrightarrow> update e' from_B = (e', Inr [])"
    by blast
  have "v' = [0, 1, 2]"
  proof (rule nth_equalityI)
    show "length v' = length [0, 1, 2 :: int]" using lv by simp
  next
    fix i assume "i < length v'"
    then have i: "i < 3" using lv by simp
    then have "i = 0 \<or> i = 1 \<or> i = 2" by arith
    with pt i show "v' ! i = [0, 1, 2] ! i" by (auto simp: from_B_def)
  qed
  with u v' pk imp again nn have
    "update node_A from_B = (e', Inr [Packet 1 [0, 1, 2], Packet 2 [0, 1, 2]]) \<and>
      vector e' = Some [0, 1, 2] \<and> update e' from_B = (e', Inr [])"
    by simp
  then have "\<exists>e'. update node_A from_B = (e', Inr [Packet 1 [0, 1, 2], Packet 2 [0, 1, 2]]) \<and>
      vector e' = Some [0, 1, 2] \<and> update e' from_B = (e', Inr [])" ..
  with h1 h2 h3 h4 h5 h6 better show ?thesis by blast
qed

text \<open>
  Claim C3. Whatever packets were delivered before, and whatever the next one is, each
  call of \<open>update\<close> leaves every entry of the vector smaller or equal, so over any
  sequence of calls every entry is non-increasing. This holds for packets of any content,
  in particular for those with non-negative costs, and also for a call that raises after
  it has written some entries.
\<close>

theorem vector_never_increases:
  assumes "vector e = Some v"
  shows "\<exists>v1 v2.
     vector (deliver e ps) = Some v1 \<and> vector (fst (update (deliver e ps) p)) = Some v2 \<and>
     length v1 = length v \<and> length v2 = length v \<and>
     (\<forall>d<length v. v2 ! d \<le> v1 ! d \<and> v1 ! d \<le> v ! d)"
proof -
  from deliver_non_increasing[OF assms, of ps] obtain v1 where
    v1: "vector (deliver e ps) = Some v1" "length v1 = length v" "\<forall>d<length v. v1 ! d \<le> v ! d"
    by blast
  from update_vector_rel[OF v1(1), of p] obtain v2 where
    v2: "vector (fst (update (deliver e ps) p)) = Some v2" "length v2 = length v1"
        "\<forall>d<length v1. v2 ! d \<le> v1 ! d"
    by fastforce
  from v1 v2 show ?thesis by auto
qed

theorem vector_never_increases_witness:
  "vector node_A = Some [0, 1, 5] \<and>
   (\<exists>v1 v2.
     vector (deliver node_A [from_B]) = Some v1 \<and>
     vector (fst (update (deliver node_A [from_B]) from_B)) = Some v2 \<and>
     length v1 = length [0, 1, 5 :: int] \<and> length v2 = length [0, 1, 5 :: int] \<and>
     (\<forall>d<length [0, 1, 5 :: int]. v2 ! d \<le> v1 ! d \<and> v1 ! d \<le> [0, 1, 5] ! d))"
proof -
  have h1: "vector node_A = Some [0, 1, 5]" by (simp add: node_A_eq)
  from vector_never_increases[OF h1, of "[from_B]" from_B] h1
  show ?thesis by blast
qed

text \<open>
  Claim C4, amended. When the links handed to \<open>initialize_costs\<close> have non-negative
  costs and do not list the node itself with a non-zero cost, \<open>vector[index]\<close> is 0
  after \<open>initialize_costs\<close> and after any sequence of \<open>update\<close> calls whose packets
  carry non-negative costs.
\<close>

theorem self_cost_stays_zero:
  assumes "valid_links e nc"
    and "\<forall>link\<in>set nc. 0 \<le> snd link"
    and "\<forall>link\<in>set nc. fst link = index e \<longrightarrow> snd link = 0"
    and "\<forall>p\<in>set ps. \<forall>x\<in>set (costs p). 0 \<le> x"
  shows "\<exists>v. vector (deliver (fst (initialize_costs e nc)) ps) = Some v \<and>
     int (length v) = number_of_entities e \<and> getitem v (index e) = Inr 0"
proof -
  from initialize_costs_vector[OF assms(1)] obtain v0 where
    v0: "vector (fst (initialize_costs e nc)) = Some v0" "int (length v0) = number_of_entities e"
        "\<forall>d<length v0. v0 ! d = (case map_of (rev nc) (int d) of
                               None \<Rightarrow> if int d = index e then 0 else 999
                             | Some c \<Rightarrow> c)"
    by blast
  have idx: "0 \<le> index e" "index e < number_of_entities e"
    using assms(1) by (auto simp: valid_links_def)
  let ?i = "nat (index e)"
  have i: "?i < length v0" using idx v0(2) by simp
  have entry: "\<And>d c. map_of (rev nc) (int d) = Some c \<Longrightarrow> (int d, c) \<in> set nc"
    by (drule map_of_SomeD) simp
  have nn: "\<forall>x\<in>set v0. 0 \<le> x"
  proof
    fix x assume "x \<in> set v0"
    then obtain d where d: "d < length v0" "x = v0 ! d" by (auto simp: in_set_conv_nth)
    show "0 \<le> x"
    proof (cases "map_of (rev nc) (int d)")
      case None
      with v0(3) d show ?thesis by simp
    next
      case (Some c)
      with entry assms(2) have "0 \<le> c" by fastforce
      with Some v0(3) d show ?thesis by simp
    qed
  qed
  have zero: "v0 ! ?i = 0"
  proof (cases "map_of (rev nc) (int ?i)")
    case None
    with v0(3) i idx show ?thesis by simp
  next
    case (Some c)
    with entry have "(int ?i, c) \<in> set nc" by blast
    with assms(3) idx have "c = 0" by fastforce
    with Some v0(3) i show ?thesis by simp
  qed
  from deliver_self_cost[OF v0(1) nn i zero assms(4)] obtain v where
    v: "vector (deliver (fst (initialize_costs e nc)) ps) = Some v" "length v = length v0" "v ! ?i = 0"
    by blast
  have "getitem v (index e) = Inr 0"
    using v(2,3) v0(2) idx by (simp add: getitem_nonneg)
  with v v0(2) show ?thesis by simp
qed

theorem self_cost_stays_zero_witness:
  "valid_links (Entity 0 3) links_A \<and>
   list_all (\<lambda>link. 0 \<le> snd link) links_A \<and>
   list_all (\<lambda>link. fst link = index (Entity 0 3) \<longrightarrow> snd link = 0) links_A \<and>
   list_all (\<lambda>p. list_all (\<lambda>x. 0 \<le> x) (costs p)) [from_B] \<and>
   (\<exists>v. vector (deliver (fst (initialize_costs (Entity 0 3) links_A)) [from_B]) = Some v \<and>
     int (length v) = number_of_entities (Entity 0 3) \<and> getitem v (index (Entity 0 3)) = Inr 0)"
proof -
  have h1: "valid_links (Entity 0 3) links_A"
    by (simp add: valid_links_def Entity_def links_A_def)
  have l2: "list_all (\<lambda>link. 0 \<le> snd link) links_A" by (simp add: links_A_def)
  have l3: "list_all (\<lambda>link. fst link = index (Entity 0 3) \<longrightarrow> snd link = 0) links_A"
    by (simp add: Entity_def links_A_def)
  have l4: "list_all (\<lambda>p. list_all (\<lambda>x. 0 \<le> x) (costs p)) [from_B]"
    by (simp add: from_B_def)
  have h2: "\<forall>link\<in>set links_A. 0 \<le> snd link" using l2 by (simp add: list_all_iff)
  have h3: "\<forall>link\<in>set links_A. fst link = index (Entity 0 3) \<longrightarrow> snd link = 0"
    using l3 by (simp add: list_all_iff)
  have h4: "\<forall>p\<in>set [from_B]. \<forall>x\<in>set (costs p). 0 \<le> x"
    using l4 by (simp add: list_all_iff)
  from self_cost_stays_zero[OF h1 h2 h3 h4] h1 l2 l3 l4
  show ?thesis by blast
qed

text \<open>
  The claim as stated fails for a node that is listed among its own links: the loop over
  the links runs after \<open>vector[self.index] = 0\<close> and overwrites it.
\<close>

theorem self_cost_overwritten_by_self_link:
  "valid_links (Entity 0 2) [(0, 5)] \<and>
   vector (fst (initialize_costs (Entity 0 2) [(0, 5)])) = Some [5, 999]"
  by code_simp

text \<open>
  Claim C5, amended. For links to node identities without duplicates,
  \<open>initialize_costs\<close> returns normally; the vector has the link cost at every listed
  neighbour, 0 at the node itself when it is not listed, and 999 elsewhere;
  \<open>next_hop[index] = index\<close> and \<open>next_hop[neighbor] = neighbor\<close> for every listed
  neighbour; and the result is one packet per link, in order, each built as
  \<open>Packet(neighbor, vector)\<close> from the neighbour and the full vector alone: the identity
  of the node is not handed to the constructor.
\<close>

theorem initialize_costs_builds:
  assumes "valid_links e nc" and "distinct (map fst nc)"
  shows "\<exists>v nh.
     initialize_costs e nc =
       (e\<lparr>neighbors := Some (map fst nc), vector := Some v, next_hop := Some nh\<rparr>,
        Inr (map (\<lambda>link. Packet (fst link) v) nc)) \<and>
     int (length v) = number_of_entities e \<and> length nh = length v \<and>
     (\<forall>d<length v. v ! d = (case map_of nc (int d) of
                               Some c \<Rightarrow> c
                             | None \<Rightarrow> if int d = index e then 0 else 999)) \<and>
     nh ! nat (index e) = index e \<and>
     (\<forall>link\<in>set nc. v ! nat (fst link) = snd link \<and> nh ! nat (fst link) = fst link)"
proof -
  from initialize_costs_good[OF assms(1)] obtain v nh where
    r: "initialize_costs e nc =
       (e\<lparr>neighbors := Some (map fst nc), vector := Some v, next_hop := Some nh\<rparr>,
        Inr (map (\<lambda>neighbor. Packet neighbor v) (map fst nc)))"
    and l: "int (length v) = number_of_entities e" "length nh = length v"
    and pv: "\<forall>d<length v. v ! d = (case map_of (rev nc) (int d) of
                               None \<Rightarrow> if int d = index e then 0 else 999
                             | Some c \<Rightarrow> c)"
    and pn: "\<forall>d<length v. nh ! d = (if int d \<in> fst ` set nc then int d
                              else if int d = index e then index e else 0)"
    by blast
  have idx: "0 \<le> index e" "index e < number_of_entities e"
    and ids: "\<forall>link\<in>set nc. 0 \<le> fst link \<and> fst link < number_of_entities e"
    using assms(1) by (auto simp: valid_links_def list_all_iff)
  have pk: "map (\<lambda>neighbor. Packet neighbor v) (map fst nc) =
            map (\<lambda>link. Packet (fst link) v) nc"
    by (simp add: comp_def)
  have pv': "\<forall>d<length v. v ! d = (case map_of nc (int d) of
                               Some c \<Rightarrow> c
                             | None \<Rightarrow> if int d = index e then 0 else 999)"
    using pv by (simp add: map_of_rev_distinct[OF assms(2)] split: option.splits)
  have self: "nh ! nat (index e) = index e"
    using pn idx l(1) by simp
  have links: "\<forall>link\<in>set nc. v ! nat (fst link) = snd link \<and> nh ! nat (fst link) = fst link"
  proof
    fix link assume link: "link \<in> set nc"
    then have rng: "0 \<le> fst link" "nat (fst link) < length v" using ids l(1) by auto
    have "map_of nc (fst link) = Some (snd link)"
      using assms(2) link by (metis map_of_is_SomeI prod.collapse)
    then have "v ! nat (fst link) = snd link" using pv' rng by simp
    moreover have "nh ! nat (fst link) = fst link" using pn rng link by simp
    ultimately show "v ! nat (fst link) = snd link \<and> nh ! nat (fst link) = fst link" ..
  qed
  have main: "initialize_costs e nc =
       (e\<lparr>neighbors := Some (map fst nc), vector := Some v, next_hop := Some nh\<rparr>,
        Inr (map (\<lambda>link. Packet (fst link) v) nc)) \<and>
     int (length v) = number_of_entities e \<and> length nh = length v \<and>
     (\<forall>d<length v. v ! d = (case map_of nc (int d) of
                               Some c \<Rightarrow> c
                             | None \<Rightarrow> if int d = index e then 0 else 999)) \<and>
     nh ! nat (index e) = index e \<and>
     (\<forall>link\<in>set nc. v ! nat (fst link) = snd link \<and> nh ! nat (fst link) = fst link)"
    using r pk l pv' self links by simp
  show ?thesis by (rule exI[of _ v], rule exI[of _ nh]) (rule main)
qed

theorem initialize_costs_builds_witness:
  "valid_links (Entity 0 3) links_A \<and> distinct (map fst links_A) \<and>
   (\<exists>v nh.
     initialize_costs (Entity 0 3) links_A =
       ((Entity 0 3)\<lparr>neighbors := Some (map fst links_A), vector := Some v,
                     next_hop := Some nh\<rparr>,
        Inr (map (\<lambda>link. Packet (fst link) v) links_A)) \<and>
     int (length v) = number_of_entities (Entity 0 3) \<and> length nh = length v \<and>
     (\<forall>d<length v. v ! d = (case map_of links_A (int d) of
                               Some c \<Rightarrow> c
                             | None \<Rightarrow> if int d = index (Entity 0 3) then 0 else 999)) \<and>
     nh ! nat (index (Entity 0 3)) = index (Entity 0 3) \<and>
     (\<forall>link\<in>set links_A. v ! nat (fst link) = snd link \<and> nh ! nat (fst link) = fst link))"
proof -
  have h1: "valid_links (Entity 0 3) links_A"
    by (simp add: valid_links_def Entity_def links_A_def)
  have h2: "distinct (map fst links_A)" by (simp add: links_A_def)
  from initialize_costs_builds[OF h1 h2] h1 h2
  show ?thesis by blast
qed

text \<open>
  The claim as stated has every packet carry the identity of the node that returned it.
  In a net of three nodes with links of cost 0, nodes 0 and 1 have the same vector, and
  for their common neighbour 2 both build the packet from the same two arguments: the
  packet is the same, the identities are not.
\<close>

theorem two_nodes_build_the_same_packet:
  "snd (initialize_costs (Entity 0 3) [(1, 0), (2, 0)]) =
     Inr [Packet 1 [0, 0, 0], Packet 2 [0, 0, 0]] \<and>
   snd (initialize_costs (Entity 1 3) [(0, 0), (2, 0)]) =
     Inr [Packet 0 [0, 0, 0], Packet 2 [0, 0, 0]] \<and>
   index (Entity 0 3) \<noteq> index (Entity 1 3)"
  by code_simp

text \<open>
  Claim C7, amended. The candidates are the exact integer sums
  \<open>costs[d] + vector[source]\<close>: nothing caps them at 999, and Python integers do not
  wrap around.
\<close>

theorem candidate_is_exact_sum:
  assumes "vector e = Some v" and "source p = Some s" and "0 \<le> s" and "s < int (length v)"
  shows "new_info_of e p = Inr (map (\<lambda>x. x + v ! nat s) (costs p))"
  using assms by (simp add: new_info_of_def getitem_nonneg)

theorem candidate_is_exact_sum_witness:
  "vector node_A = Some [0, 1, 5] \<and> source from_B = Some 1 \<and> (0::int) \<le> 1 \<and>
   (1::int) < int (length [0, 1, 5 :: int]) \<and>
   new_info_of node_A from_B = Inr (map (\<lambda>x. x + [0, 1, 5] ! nat 1) (costs from_B))"
proof -
  have h1: "vector node_A = Some [0, 1, 5]" by (simp add: node_A_eq)
  have h2: "source from_B = Some 1" by (simp add: from_B_def)
  have h3: "(0::int) \<le> 1" by simp
  have h4: "(1::int) < int (length [0, 1, 5 :: int])" by simp
  from candidate_is_exact_sum[OF h1 h2 h3 h4] h1 h2 h3 h4
  show ?thesis by blast
qed

text \<open>
  The claim as stated fails on the line A - B - C with unit costs: when B receives the first
  vector of A, which has 999 for C, the candidate for C is 1000.
\<close>

theorem candidate_exceeds_infinity:
  "new_info_of (fst (initialize_costs (Entity 1 3) [(0, 1), (2, 1)]))
     \<lparr>source = Some 0, destination = 1, costs = [0, 1, 999]\<rparr> = Inr [1, 2, 1000]"
  by code_simp

text \<open>
  Claim C8, amended. On an initialised node \<open>forward_next_hop\<close> raises
  \<open>IndexError\<close> for a destination \<open>dest \<ge> N\<close> or \<open>dest < -N\<close>; for
  \<open>0 \<le> dest < N\<close> it returns \<open>next_hop[dest]\<close>; and for \<open>-N \<le> dest < 0\<close> it
  returns the entry \<open>next_hop[N + dest]\<close>, as Python indexing counts a negative index
  from the end.
\<close>

theorem forward_next_hop_range:
  assumes "active e" and "next_hop e = Some nh"
  shows "(dest < - number_of_entities e \<or> number_of_entities e \<le> dest
            \<longrightarrow> forward_next_hop e dest = Inl IndexError) \<and>
         (0 \<le> dest \<and> dest < number_of_entities e
            \<longrightarrow> forward_next_hop e dest = Inr (nh ! nat dest)) \<and>
         (- number_of_entities e \<le> dest \<and> dest < 0
            \<longrightarrow> forward_next_hop e dest = Inr (nh ! nat (number_of_entities e + dest)))"
proof -
  from activeD[OF assms(1)] assms(2) have "int (length nh) = number_of_entities e" by auto
  then show ?thesis
    using assms(2) by (auto simp: forward_next_hop_def getitem_def py_index_def)
qed

theorem forward_next_hop_range_witness:
  "active node_A \<and> next_hop node_A = Some [0, 1, 2] \<and>
   forward_next_hop node_A 3 = Inl IndexError \<and>
   forward_next_hop node_A (- 4) = Inl IndexError \<and>
   forward_next_hop node_A 2 = Inr 2 \<and>
   forward_next_hop node_A (- 3) = Inr 0"
proof -
  have h1: "active node_A" by (rule node_A_active)
  have h2: "next_hop node_A = Some [0, 1, 2]" by (simp add: node_A_eq)
  have n: "number_of_entities node_A = 3" by (simp add: node_A_eq)
  from forward_next_hop_range[OF h1 h2, of 3] n
  have a: "forward_next_hop node_A 3 = Inl IndexError" by simp
  from forward_next_hop_range[OF h1 h2, of "- 4"] n
  have b: "forward_next_hop node_A (- 4) = Inl IndexError" by simp
  from forward_next_hop_range[OF h1 h2, of 2] n
  have c: "forward_next_hop node_A 2 = Inr 2" by simp
  from forward_next_hop_range[OF h1 h2, of "- 3"] n
  have d: "forward_next_hop node_A (- 3) = Inr 0" by simp
  from h1 h2 a b c d show ?thesis by blast
qed

text \<open>
  The claim as stated fails for the destination -1: node A answers with its entry for
  node 2.
\<close>

theorem forward_next_hop_negative_destination:
  "forward_next_hop node_A (- 1) = Inr 2"
  unfolding node_A_def by code_simp

text \<open>
  Claim C9. Right after \<open>initialize_costs\<close>, for every destination that is neither the
  node itself nor a listed neighbour, \<open>next_hop\<close> holds 0, and \<open>forward_next_hop\<close>
  returns 0 for it. It still returns 0 after any run of \<open>update\<close> calls that left the
  cost of that destination at 999, that is for a destination that was never improved.
\<close>

theorem unlisted_next_hop_is_zero:
  assumes "valid_links e nc" and "0 \<le> d" and "d < number_of_entities e"
    and "d \<noteq> index e" and "d \<notin> fst ` set nc"
  shows "\<exists>e' packets nh.
     initialize_costs e nc = (e', Inr packets) \<and> next_hop e' = Some nh \<and>
     nh ! nat d = 0 \<and> forward_next_hop e' d = Inr 0 \<and>
     (\<forall>v'. vector (deliver e' ps) = Some v' \<longrightarrow> v' ! nat d = 999 \<longrightarrow>
        forward_next_hop (deliver e' ps) d = Inr 0)"
proof -
  from initialize_costs_good[OF assms(1)] obtain v nh where
    r: "initialize_costs e nc =
       (e\<lparr>neighbors := Some (map fst nc), vector := Some v, next_hop := Some nh\<rparr>,
        Inr (map (\<lambda>neighbor. Packet neighbor v) (map fst nc)))"
    and l: "int (length v) = number_of_entities e" "length nh = length v"
    and pv: "\<forall>d<length v. v ! d = (case map_of (rev nc) (int d) of
                               None \<Rightarrow> if int d = index e then 0 else 999
                             | Some c \<Rightarrow> c)"
    and pn: "\<forall>d<length v. nh ! d = (if int d \<in> fst ` set nc then int d
                              else if int d = index e then index e else 0)"
    by blast
  let ?e' = "e\<lparr>neighbors := Some (map fst nc), vector := Some v, next_hop := Some nh\<rparr>"
  have d: "nat d < length v" "nat d < length nh" using assms(2,3) l by simp_all
  have z: "nh ! nat d = 0" using pn d assms(2,4,5) by simp
  have f: "forward_next_hop ?e' d = Inr 0"
    using z assms(2,3) l by (simp add: forward_next_hop_def getitem_nonneg)
  have "map_of (rev nc) d = None"
    using assms(5) by (simp add: map_of_eq_None_iff)
  then have inf: "v ! nat d = 999" using pv d assms(2,4) by simp
  have later: "\<forall>v'. vector (deliver ?e' ps) = Some v' \<longrightarrow> v' ! nat d = 999 \<longrightarrow>
        forward_next_hop (deliver ?e' ps) d = Inr 0"
  proof (intro allI impI)
    fix v' assume v': "vector (deliver ?e' ps) = Some v'" and same: "v' ! nat d = 999"
    from deliver_hop_kept[of ?e' v nh "nat d" ps] d obtain v'' nh' where
      k: "vector (deliver ?e' ps) = Some v''" "next_hop (deliver ?e' ps) = Some nh'"
         "length nh' = length nh" "v'' ! nat d = v ! nat d \<longrightarrow> nh' ! nat d = nh ! nat d"
      by auto
    from k(1) v' have "v'' = v'" by simp
    with k(4) same inf z have "nh' ! nat d = 0" by simp
    then show "forward_next_hop (deliver ?e' ps) d = Inr 0"
      using k(2,3) d(2) assms(2) by (simp add: forward_next_hop_def getitem_nonneg)
  qed
  have main: "initialize_costs e nc = (?e', Inr (map (\<lambda>neighbor. Packet neighbor v) (map fst nc))) \<and>
     next_hop ?e' = Some nh \<and> nh ! nat d = 0 \<and> forward_next_hop ?e' d = Inr 0 \<and>
     (\<forall>v'. vector (deliver ?e' ps) = Some v' \<longrightarrow> v' ! nat d = 999 \<longrightarrow>
        forward_next_hop (deliver ?e' ps) d = Inr 0)"
    using r z f later by simp
  show ?thesis
    by (rule exI[of _ ?e'], rule exI[of _ "map (\<lambda>neighbor. Packet neighbor v) (map fst nc)"],
        rule exI[of _ nh]) (rule main)
qed

theorem unlisted_next_hop_is_zero_witness:
  "valid_links (Entity 1 4) [(2, 7)] \<and> (0::int) \<le> 3 \<and> 3 < number_of_entities (Entity 1 4) \<and>
   3 \<noteq> index (Entity 1 4) \<and> (3::int) \<notin> fst ` set [(2 :: int, 7 :: int)] \<and>
   (\<exists>e' packets nh.
     initialize_costs (Entity 1 4) [(2, 7)] = (e', Inr packets) \<and> next_hop e' = Some nh \<and>
     nh ! nat 3 = 0 \<and> forward_next_hop e' 3 = Inr 0 \<and>
     (\<forall>v'. vector (deliver e' [\<lparr>source = Some 2, destination = 1, costs = [8, 7, 0, 999]\<rparr>]) = Some v' \<longrightarrow>
        v' ! nat 3 = 999 \<longrightarrow>
        forward_next_hop (deliver e' [\<lparr>source = Some 2, destination = 1, costs = [8, 7, 0, 999]\<rparr>]) 3 = Inr 0))"
proof -
  have h1: "valid_links (Entity 1 4) [(2, 7)]" by (simp add: valid_links_def Entity_def)
  have h2: "(0::int) \<le> 3" by simp
  have h3: "3 < number_of_entities (Entity 1 4)" by (simp add: Entity_def)
  have h4: "3 \<noteq> index (Entity 1 4)" by (simp add: Entity_def)
  have h5: "(3::int) \<notin> fst ` set [(2 :: int, 7 :: int)]" by simp
  from unlisted_next_hop_is_zero[OF h1 h2 h3 h4 h5] h1 h2 h3 h4 h5
  show ?thesis by blast
qed

text \<open>
  Claim C10. When every link cost is at most 999, every entry of the vector is at most 999
  after \<open>initialize_costs\<close> and after any sequence of \<open>update\<close> calls, whatever the
  packets hold.
\<close>

theorem costs_at_most_infinity:
  assumes "valid_links e nc" and "\<forall>link\<in>set nc. snd link \<le> 999"
  shows "\<exists>v. vector (deliver (fst (initialize_costs e nc)) ps) = Some v \<and>
     int (length v) = number_of_entities e \<and> (\<forall>x\<in>set v. x \<le> 999)"
proof -
  from initialize_costs_vector[OF assms(1)] obtain v0 where
    v0: "vector (fst (initialize_costs e nc)) = Some v0" "int (length v0) = number_of_entities e"
        "\<forall>d<length v0. v0 ! d = (case map_of (rev nc) (int d) of
                               None \<Rightarrow> if int d = index e then 0 else 999
                             | Some c \<Rightarrow> c)"
    by blast
  have entry: "\<And>d c. map_of (rev nc) (int d) = Some c \<Longrightarrow> (int d, c) \<in> set nc"
    by (drule map_of_SomeD) simp
  have le: "\<forall>x\<in>set v0. x \<le> 999"
  proof
    fix x assume "x \<in> set v0"
    then obtain d where d: "d < length v0" "x = v0 ! d" by (auto simp: in_set_conv_nth)
    show "x \<le> 999"
    proof (cases "map_of (rev nc) (int d)")
      case None
      with v0(3) d show ?thesis by simp
    next
      case (Some c)
      with entry assms(2) have "c \<le> 999" by fastforce
      with Some v0(3) d show ?thesis by simp
    qed
  qed
  from deliver_upper_bound[OF v0(1) le, of ps] v0(2) show ?thesis by auto
qed

theorem costs_at_most_infinity_witness:
  "valid_links (Entity 0 3) links_A \<and>
   list_all (\<lambda>link. snd link \<le> 999) links_A \<and>
   (\<exists>v. vector (deliver (fst (initialize_costs (Entity 0 3) links_A)) [from_B]) = Some v \<and>
     int (length v) = number_of_entities (Entity 0 3) \<and> (\<forall>x\<in>set v. x \<le> 999))"
proof -
  have h1: "valid_links (Entity 0 3) links_A"
    by (simp add: valid_links_def Entity_def links_A_def)
  have l2: "list_all (\<lambda>link. snd link \<le> 999) links_A" by (simp add: links_A_def)
  have h2: "\<forall>link\<in>set links_A. snd link \<le> 999" using l2 by (simp add: list_all_iff)
  from costs_at_most_infinity[OF h1 h2, of "[from_B]"] h1 l2
  show ?thesis by blast
qed

section \<open>Who can reach a list\<close>

lemma Packet_copy_eq:
  "Packet_copy h dest a = (h @ [h ! a], Packet_at dest (length h))"
  by (simp add: Packet_copy_def alloc_def)

lemma set_links_ref_frame:
  "length (fst (set_links_ref h a links)) = length h \<and>
   (\<forall>x. x \<noteq> a \<longrightarrow> fst (set_links_ref h a links) ! x = h ! x)"
  by (induction links arbitrary: h) (auto split: sum.splits)

lemma relax_ref_frame:
  "length (fst (relax_ref ni s e h u is)) = length h \<and>
   (\<forall>x. r_vector e \<noteq> Some x \<longrightarrow> r_next_hop e \<noteq> Some x \<longrightarrow>
        fst (relax_ref ni s e h u is) ! x = h ! x)"
  by (induction ni s e h u "is" rule: relax_ref.induct)
     (auto simp: Let_def split: sum.splits option.splits)

lemma send_all_frame:
  "length h \<le> length (fst (send_all Packet_copy h e pk ns)) \<and>
   (\<forall>x<length h. fst (send_all Packet_copy h e pk ns) ! x = h ! x)"
proof (induction ns arbitrary: h pk)
  case Nil
  show ?case by simp
next
  case (Cons n rest)
  show ?case
  proof (cases "r_vector e")
    case None
    then show ?thesis by simp
  next
    case (Some a)
    have step: "send_all Packet_copy h e pk (n # rest) =
        send_all Packet_copy (h @ [h ! a]) e
          (pk @ [Packet_at n (length h)]) rest"
      using Some by (simp add: Packet_copy_eq[of h n a])
    from Cons.IH[of "h @ [h ! a]" "pk @ [Packet_at n (length h)]"]
    show ?thesis
      unfolding step by (auto simp: nth_append)
  qed
qed

lemma send_all_copy:
  "r_vector e = Some a \<Longrightarrow> a < length h \<Longrightarrow>
   \<exists>h' pkts. send_all Packet_copy h e pk ns = (h', Inr (pk @ pkts)) \<and>
     length h \<le> length h' \<and> (\<forall>x<length h. h' ! x = h ! x) \<and>
     (\<forall>p\<in>set pkts. length h \<le> costs_at p \<and> costs_at p < length h' \<and> h' ! costs_at p = h ! a)"
proof (induction ns arbitrary: h pk)
  case Nil
  then show ?case by simp
next
  case (Cons n rest)
  let ?h1 = "h @ [h ! a]"
  let ?p = "Packet_at n (length h)"
  have step: "send_all Packet_copy h e pk (n # rest) = send_all Packet_copy ?h1 e (pk @ [?p]) rest"
    using Cons.prems(1) by (simp add: Packet_copy_eq[of h n a])
  have a1: "a < length ?h1" using Cons.prems(2) by simp
  have keep: "?h1 ! a = h ! a" using Cons.prems(2) by (simp add: nth_append)
  from Cons.IH[OF Cons.prems(1) a1, of "pk @ [?p]"] obtain h' pkts where
    r: "send_all Packet_copy ?h1 e (pk @ [?p]) rest = (h', Inr ((pk @ [?p]) @ pkts))"
    and l: "length ?h1 \<le> length h'"
    and f: "\<forall>x<length ?h1. h' ! x = ?h1 ! x"
    and c: "\<forall>p\<in>set pkts. length ?h1 \<le> costs_at p \<and> costs_at p < length h' \<and> h' ! costs_at p = ?h1 ! a"
    by blast
  have r': "send_all Packet_copy h e pk (n # rest) = (h', Inr (pk @ (?p # pkts)))"
    using step r by simp
  have l': "length h \<le> length h'" using l by simp
  have f': "\<forall>x<length h. h' ! x = h ! x" using f by (simp add: nth_append)
  have hp: "h' ! length h = h ! a" using f by (simp add: nth_append)
  have c': "\<forall>p\<in>set (?p # pkts). length h \<le> costs_at p \<and> costs_at p < length h' \<and> h' ! costs_at p = h ! a"
    using c l hp keep by auto
  from r' l' f' c' show ?case by blast
qed

lemma set_hops_ref_copy:
  "a < length h \<Longrightarrow> b < length h \<Longrightarrow> a \<noteq> b \<Longrightarrow>
   set_hops_ref Packet_copy h a b pk ns = (h', Inr pkts) \<Longrightarrow>
   length h \<le> length h' \<and> (\<forall>x<length h. x \<noteq> b \<longrightarrow> h' ! x = h ! x) \<and>
   (\<forall>p\<in>set pkts. p \<in> set pk \<or>
      (length h \<le> costs_at p \<and> costs_at p < length h' \<and> h' ! costs_at p = h ! a))"
proof (induction ns arbitrary: h pk)
  case Nil
  then show ?case by auto
next
  case (Cons n rest)
  from Cons.prems(4) obtain nh' where nh': "setitem (h ! b) n n = Inr nh'"
    by (auto split: sum.splits)
  let ?h1 = "h[b := nh']"
  let ?h2 = "?h1 @ [?h1 ! a]"
  let ?p = "Packet_at n (length h)"
  have step: "set_hops_ref Packet_copy ?h2 a b (pk @ [?p]) rest = (h', Inr pkts)"
    using Cons.prems(4) nh' by (simp add: Packet_copy_eq[of "h[b := nh']" n a])
  have a2: "a < length ?h2" "b < length ?h2" using Cons.prems(1,2) by simp_all
  from Cons.IH[OF a2 Cons.prems(3) step] have
    l: "length ?h2 \<le> length h'"
    and f: "\<forall>x<length ?h2. x \<noteq> b \<longrightarrow> h' ! x = ?h2 ! x"
    and c: "\<forall>p\<in>set pkts. p \<in> set (pk @ [?p]) \<or>
      (length ?h2 \<le> costs_at p \<and> costs_at p < length h' \<and> h' ! costs_at p = ?h2 ! a)"
    by blast+
  have keep: "?h2 ! a = h ! a" using Cons.prems(1,3) by (simp add: nth_append)
  have l': "length h \<le> length h'" using l by simp
  have f': "\<forall>x<length h. x \<noteq> b \<longrightarrow> h' ! x = h ! x"
    using f by (simp add: nth_append)
  have hp: "h' ! length h = h ! a"
    using f Cons.prems(1,2,3) by (simp add: nth_append)
  have c': "\<forall>p\<in>set pkts. p \<in> set pk \<or>
      (length h \<le> costs_at p \<and> costs_at p < length h' \<and> h' ! costs_at p = h ! a)"
  proof
    fix p assume "p \<in> set pkts"
    with c have "p \<in> set pk \<or> p = ?p \<or>
      (length ?h2 \<le> costs_at p \<and> costs_at p < length h' \<and> h' ! costs_at p = ?h2 ! a)" by auto
    then show "p \<in> set pk \<or>
      (length h \<le> costs_at p \<and> costs_at p < length h' \<and> h' ! costs_at p = h ! a)"
      using hp l keep by auto
  qed
  from l' f' c' show ?case by blast
qed

lemma update_ref_frame:
  "length h \<le> length (fst (update_ref Packet_copy h e q)) \<and>
   (\<forall>x<length h. r_vector e \<noteq> Some x \<longrightarrow> r_next_hop e \<noteq> Some x \<longrightarrow>
        fst (update_ref Packet_copy h e q) ! x = h ! x)"
proof (cases "new_info_of_ref h e q")
  case (Inl err)
  then show ?thesis by (simp add: update_ref_def)
next
  case (Inr ni)
  show ?thesis
  proof (cases "r_source q")
    case None
    with Inr show ?thesis by (simp add: update_ref_def)
  next
    case (Some src)
    obtain h1 r where rl: "relax_ref ni src e h False (range_of (r_number_of_entities e)) = (h1, r)"
      by (cases "relax_ref ni src e h False (range_of (r_number_of_entities e))")
    from relax_ref_frame[of ni src e h False "range_of (r_number_of_entities e)"] rl
    have f1: "length h1 = length h"
      "\<forall>x. r_vector e \<noteq> Some x \<longrightarrow> r_next_hop e \<noteq> Some x \<longrightarrow> h1 ! x = h ! x"
      by simp_all
    have "fst (update_ref Packet_copy h e q) = h1 \<or>
          (\<exists>ns. fst (update_ref Packet_copy h e q) = fst (send_all Packet_copy h1 e [] ns))"
      using Inr Some rl by (auto simp: update_ref_def split: sum.splits option.splits)
    then show ?thesis
    proof
      assume "fst (update_ref Packet_copy h e q) = h1"
      with f1 show ?thesis by simp
    next
      assume "\<exists>ns. fst (update_ref Packet_copy h e q) = fst (send_all Packet_copy h1 e [] ns)"
      then obtain ns where u: "fst (update_ref Packet_copy h e q) = fst (send_all Packet_copy h1 e [] ns)"
        by blast
      from send_all_frame[of h1 e "[]" ns] f1 show ?thesis unfolding u by auto
    qed
  qed
qed

lemma deliver_ref_frame:
  "length h \<le> length (deliver_ref Packet_copy h e qs) \<and>
   (\<forall>x<length h. r_vector e \<noteq> Some x \<longrightarrow> r_next_hop e \<noteq> Some x \<longrightarrow>
        deliver_ref Packet_copy h e qs ! x = h ! x)"
proof (induction qs arbitrary: h)
  case Nil
  show ?case by simp
next
  case (Cons q qs)
  let ?h1 = "fst (update_ref Packet_copy h e q)"
  from update_ref_frame[of h e q] Cons.IH[of ?h1] show ?case by auto
qed

lemma update_ref_packets:
  assumes wf: "wf_ref h e" and u: "update_ref Packet_copy h e q = (h1, Inr pkts)"
    and p: "p \<in> set pkts"
  shows "\<exists>a. r_vector e = Some a \<and> a < length h \<and> length h \<le> costs_at p \<and>
     costs_at p < length h1 \<and> h1 ! costs_at p = h1 ! a"
proof -
  from u obtain ni where ni: "new_info_of_ref h e q = Inr ni"
    by (auto simp: update_ref_def split: sum.splits)
  from u p ni obtain src where src: "r_source q = Some src"
    by (cases "r_source q") (auto simp: update_ref_def split: if_splits)
  obtain h0 r where rl: "relax_ref ni src e h False (range_of (r_number_of_entities e)) = (h0, r)"
    by (cases "relax_ref ni src e h False (range_of (r_number_of_entities e))")
  from u p ni src rl obtain ns where ns: "r_neighbors e = Some ns"
    and sa: "send_all Packet_copy h0 e [] ns = (h1, Inr pkts)"
    by (auto simp: update_ref_def split: sum.splits option.splits if_splits)
  from sa p have nsne: "ns \<noteq> []" by (cases ns) auto
  from sa nsne obtain a where a: "r_vector e = Some a"
    by (cases ns; cases "r_vector e") auto
  from relax_ref_frame[of ni src e h False "range_of (r_number_of_entities e)"] rl
  have l0: "length h0 = length h" by simp
  from wf a have al: "a < length h" by (simp add: wf_ref_def)
  then have al0: "a < length h0" using l0 by simp
  from send_all_copy[OF a al0, of "[]" ns] sa obtain
    f: "\<forall>x<length h0. h1 ! x = h0 ! x"
    and c: "\<forall>p\<in>set pkts. length h0 \<le> costs_at p \<and> costs_at p < length h1 \<and> h1 ! costs_at p = h0 ! a"
    by auto
  from f al0 have "h1 ! a = h0 ! a" by simp
  with c p l0 a al show ?thesis by auto
qed

lemma initialize_costs_ref_packets:
  assumes i: "initialize_costs_ref Packet_copy h e nc = (h1, e1, Inr pkts)"
  shows "\<exists>a b. r_vector e1 = Some a \<and> r_next_hop e1 = Some b \<and> a < length h1 \<and> b < length h1 \<and>
     (\<forall>p\<in>set pkts. costs_at p < length h1 \<and> costs_at p \<noteq> a \<and> costs_at p \<noteq> b \<and>
        h1 ! costs_at p = h1 ! a)"
proof -
  let ?N = "nat (r_number_of_entities e)"
  let ?a = "length h"
  let ?h1 = "h @ [replicate ?N 999]"
  from i obtain v1 where v1: "setitem (?h1 ! ?a) (r_index e) 0 = Inr v1"
    by (auto simp: initialize_costs_ref_def alloc_def Let_def split: sum.splits)
  obtain h2 r2 where sl: "set_links_ref (?h1[?a := v1]) ?a nc = (h2, r2)"
    by (cases "set_links_ref (?h1[?a := v1]) ?a nc")
  from i v1 sl have r2: "r2 = None"
    by (cases r2) (auto simp: initialize_costs_ref_def alloc_def Let_def split: sum.splits)
  from set_links_ref_frame[of "?h1[?a := v1]" ?a nc] sl
  have l2: "length h2 = Suc (length h)" by simp
  let ?b = "length h2"
  let ?h3 = "h2 @ [replicate ?N 0]"
  from i v1 sl r2 obtain nh1 where nh1: "setitem (?h3 ! ?b) (r_index e) (r_index e) = Inr nh1"
    by (auto simp: initialize_costs_ref_def alloc_def Let_def split: sum.splits)
  from i v1 sl r2 nh1 have
    sh: "set_hops_ref Packet_copy (?h3[?b := nh1]) ?a ?b [] (map fst nc) = (h1, Inr pkts)"
    and e1: "e1 = e\<lparr>r_neighbors := Some (map fst nc), r_vector := Some ?a, r_next_hop := Some ?b\<rparr>"
    by (auto simp: initialize_costs_ref_def alloc_def Let_def split: sum.splits prod.splits)
  have al: "?a < length (?h3[?b := nh1])" and bl: "?b < length (?h3[?b := nh1])" and ab: "?a \<noteq> ?b"
    using l2 by simp_all
  from set_hops_ref_copy[OF al bl ab sh] have
    l: "length (?h3[?b := nh1]) \<le> length h1"
    and f: "\<forall>x<length (?h3[?b := nh1]). x \<noteq> ?b \<longrightarrow> h1 ! x = ?h3[?b := nh1] ! x"
    and c: "\<forall>p\<in>set pkts. p \<in> set [] \<or>
      (length (?h3[?b := nh1]) \<le> costs_at p \<and> costs_at p < length h1 \<and>
       h1 ! costs_at p = ?h3[?b := nh1] ! ?a)"
    by blast+
  have keep: "h1 ! ?a = ?h3[?b := nh1] ! ?a" using f al ab by blast
  have "\<forall>p\<in>set pkts. costs_at p < length h1 \<and> costs_at p \<noteq> ?a \<and> costs_at p \<noteq> ?b \<and>
        h1 ! costs_at p = h1 ! ?a"
    using c keep l2 by auto
  moreover have "?a < length h1" "?b < length h1" using l l2 by simp_all
  ultimately show ?thesis using e1 by auto
qed

section \<open>The store and the values agree\<close>

text \<open>
  Read through \<open>abs_entity\<close>, \<open>abs_packet\<close> and \<open>abs_built\<close>, the calls over the store return what the
  calls over values return, errors and half-done writes included.
\<close>

lemma abs_entity_frame:
  "wf_ref h e \<Longrightarrow> length h \<le> length h' \<Longrightarrow>
   \<forall>x<length h. r_vector e = Some x \<or> r_next_hop e = Some x \<longrightarrow> h' ! x = h ! x \<Longrightarrow>
   abs_entity h' e = abs_entity h e"
  by (auto simp: abs_entity_def wf_ref_def split: option.splits)

lemma relax_sim:
  "wf_ref h e \<Longrightarrow> separate e \<Longrightarrow>
   relax ni s (abs_entity h e) u is =
     (abs_entity (fst (relax_ref ni s e h u is)) e, snd (relax_ref ni s e h u is))"
proof (induction "is" arbitrary: h u)
  case Nil
  show ?case by simp
next
  case (Cons i rest)
  show ?case
  proof (cases "r_vector e")
    case None
    then show ?thesis by (simp add: abs_entity_def split: sum.splits)
  next
    case (Some a)
    then have al: "a < length h" using Cons.prems(1) by (simp add: wf_ref_def)
    have va: "vector (abs_entity h e) = Some (h ! a)" using Some by (simp add: abs_entity_def)
    show ?thesis
    proof (cases "i < length ni \<and> i < length (h ! a) \<and> ni ! i < h ! a ! i")
      case False
      have "relax ni s (abs_entity h e) u (i # rest) = relax ni s (abs_entity h e) u rest \<and>
            relax_ref ni s e h u (i # rest) = relax_ref ni s e h u rest \<or>
            relax ni s (abs_entity h e) u (i # rest) = (abs_entity h e, Inl IndexError) \<and>
            relax_ref ni s e h u (i # rest) = (h, Inl IndexError)"
        using False Some va by (auto simp: getitem_nat)
      then show ?thesis using Cons.IH[OF Cons.prems, of u] by auto
    next
      case True
      let ?v1 = "(h ! a)[i := ni ! i]"
      let ?h1 = "h[a := ?v1]"
      have wf1: "wf_ref ?h1 e" using Cons.prems(1) by (auto simp: wf_ref_def split: option.splits)
      have e1: "(abs_entity h e)\<lparr>vector := Some ?v1\<rparr> = abs_entity ?h1 e"
        using Some al Cons.prems(2)
        by (cases "r_next_hop e") (auto simp: abs_entity_def separate_def)
      show ?thesis
      proof (cases "r_next_hop e")
        case None
        have nn: "next_hop (abs_entity ?h1 e) = None" using None by (simp add: abs_entity_def)
        have "relax ni s (abs_entity h e) u (i # rest) = (abs_entity ?h1 e, Inl AttributeError)"
          using True va e1 nn by (simp add: getitem_nat setitem_nat)
        moreover have "relax_ref ni s e h u (i # rest) = (?h1, Inl AttributeError)"
          using True Some None by (simp add: getitem_nat setitem_nat)
        ultimately show ?thesis by simp
      next
        case (Some b)
        then have bl: "b < length h" and ab: "a \<noteq> b"
          using Cons.prems \<open>r_vector e = Some a\<close> by (auto simp: wf_ref_def separate_def)
        have nb: "next_hop (abs_entity ?h1 e) = Some (h ! b)"
          using Some ab by (simp add: abs_entity_def)
        show ?thesis
        proof (cases "i < length (h ! b)")
          case False
          have "relax ni s (abs_entity h e) u (i # rest) = (abs_entity ?h1 e, Inl IndexError)"
            using True va e1 nb False by (simp add: getitem_nat setitem_nat)
          moreover have "relax_ref ni s e h u (i # rest) = (?h1, Inl IndexError)"
            using True \<open>r_vector e = Some a\<close> Some False ab by (simp add: getitem_nat setitem_nat)
          ultimately show ?thesis by simp
        next
          case ib: True
          let ?nh1 = "(h ! b)[i := s]"
          let ?h2 = "?h1[b := ?nh1]"
          have wf2: "wf_ref ?h2 e" using Cons.prems(1) by (auto simp: wf_ref_def split: option.splits)
          have e2: "(abs_entity ?h1 e)\<lparr>next_hop := Some ?nh1\<rparr> = abs_entity ?h2 e"
            using Some \<open>r_vector e = Some a\<close> al bl ab by (simp add: abs_entity_def)
          have "relax ni s (abs_entity h e) u (i # rest) = relax ni s (abs_entity ?h2 e) True rest"
            using True va e1 nb ib e2 by (simp add: getitem_nat setitem_nat)
          moreover have "relax_ref ni s e h u (i # rest) = relax_ref ni s e ?h2 True rest"
            using True \<open>r_vector e = Some a\<close> Some ib ab by (simp add: getitem_nat setitem_nat)
          ultimately show ?thesis using Cons.IH[OF wf2 Cons.prems(2), of True] by simp
        qed
      qed
    qed
  qed
qed

lemma new_info_of_sim:
  "new_info_of (abs_entity h e) (abs_packet h p) = new_info_of_ref h e p"
  by (auto simp: new_info_of_def new_info_of_ref_def abs_entity_def abs_packet_def
           split: option.splits sum.splits)

lemma send_all_abs:
  "r_vector e = Some a \<Longrightarrow> a < length h \<Longrightarrow> \<forall>p\<in>set pk. costs_at p < length h \<Longrightarrow>
   \<exists>h' pkts. send_all Packet_copy h e pk ns = (h', Inr pkts) \<and>
     length h \<le> length h' \<and> (\<forall>x<length h. h' ! x = h ! x) \<and>
     map (abs_built h') pkts = map (abs_built h) pk @ map (\<lambda>neighbor. Packet neighbor (h ! a)) ns"
proof (induction ns arbitrary: h pk)
  case Nil
  then show ?case by simp
next
  case (Cons n rest)
  let ?h1 = "h @ [h ! a]"
  let ?p = "Packet_at n (length h)"
  have step: "send_all Packet_copy h e pk (n # rest) = send_all Packet_copy ?h1 e (pk @ [?p]) rest"
    using Cons.prems(1) by (simp add: Packet_copy_eq[of h n a])
  have a1: "a < length ?h1" using Cons.prems(2) by simp
  have pk1: "\<forall>p\<in>set (pk @ [?p]). costs_at p < length ?h1" using Cons.prems(3) by auto
  have keep: "?h1 ! a = h ! a" using Cons.prems(2) by (simp add: nth_append)
  from Cons.IH[OF Cons.prems(1) a1 pk1] obtain h' pkts where
    r: "send_all Packet_copy ?h1 e (pk @ [?p]) rest = (h', Inr pkts)"
    and l: "length ?h1 \<le> length h'"
    and f: "\<forall>x<length ?h1. h' ! x = ?h1 ! x"
    and m: "map (abs_built h') pkts =
            map (abs_built ?h1) (pk @ [?p]) @ map (\<lambda>neighbor. Packet neighbor (?h1 ! a)) rest"
    by blast
  have old: "map (abs_built ?h1) pk = map (abs_built h) pk"
    using Cons.prems(3) by (simp add: abs_built_def nth_append)
  have new: "abs_built ?h1 ?p = Packet n (h ! a)"
    by (simp add: abs_built_def)
  have m': "map (abs_built h') pkts =
            map (abs_built h) pk @ map (\<lambda>neighbor. Packet neighbor (h ! a)) (n # rest)"
    using m old new keep by simp
  have l': "length h \<le> length h'" using l by simp
  have f': "\<forall>x<length h. h' ! x = h ! x" using f by (simp add: nth_append)
  from r l' f' m' show ?case unfolding step by blast
qed

lemma update_sim:
  assumes wf: "wf_ref h e" and sep: "separate e"
  shows "update (abs_entity h e) (abs_packet h p) =
     (abs_entity (fst (update_ref Packet_copy h e p)) e,
      map_sum id (map (abs_built (fst (update_ref Packet_copy h e p))))
        (snd (update_ref Packet_copy h e p)))"
proof (cases "new_info_of_ref h e p")
  case (Inl err)
  then show ?thesis by (simp add: update_def update_ref_def new_info_of_sim)
next
  case (Inr ni)
  show ?thesis
  proof (cases "r_source p")
    case None
    have "source (abs_packet h p) = None" using None by (simp add: abs_packet_def)
    moreover have "number_of_entities (abs_entity h e) = r_number_of_entities e"
      by (simp add: abs_entity_def)
    ultimately show ?thesis
      using Inr None by (simp add: update_def update_ref_def new_info_of_sim)
  next
    case (Some src)
    let ?rng = "range_of (r_number_of_entities e)"
    obtain h0 r0 where rr: "relax_ref ni src e h False ?rng = (h0, r0)"
      by (cases "relax_ref ni src e h False ?rng")
    have N: "number_of_entities (abs_entity h e) = r_number_of_entities e"
      by (simp add: abs_entity_def)
    have src: "source (abs_packet h p) = Some src" using Some by (simp add: abs_packet_def)
    from relax_sim[OF wf sep, of ni src False ?rng] rr
    have rv: "relax ni src (abs_entity h e) False ?rng = (abs_entity h0 e, r0)" by simp
    from relax_ref_frame[of ni src e h False ?rng] rr have l0: "length h0 = length h" by simp
    have wf0: "wf_ref h0 e" using wf l0 by (auto simp: wf_ref_def split: option.splits)
    show ?thesis
    proof (cases r0)
      case (Inl err)
      have "update (abs_entity h e) (abs_packet h p) = (abs_entity h0 e, Inl err)"
        using Inr src rv Inl N by (simp add: update_def new_info_of_sim)
      moreover have "update_ref Packet_copy h e p = (h0, Inl err)"
        using Inr Some rr Inl by (simp add: update_ref_def)
      ultimately show ?thesis by simp
    next
      case upd: (Inr updated)
      show ?thesis
      proof (cases updated)
        case False
        have "update (abs_entity h e) (abs_packet h p) = (abs_entity h0 e, Inr [])"
          using Inr src rv upd False N by (simp add: update_def new_info_of_sim)
        moreover have "update_ref Packet_copy h e p = (h0, Inr [])"
          using Inr Some rr upd False by (simp add: update_ref_def)
        ultimately show ?thesis by simp
      next
        case True
        have uv: "update (abs_entity h e) (abs_packet h p) = (abs_entity h0 e, broadcast (abs_entity h0 e))"
          using Inr src rv upd True N by (simp add: update_def new_info_of_sim)
        show ?thesis
        proof (cases "r_neighbors e")
          case None
          have "broadcast (abs_entity h0 e) = Inl AttributeError"
            using None by (simp add: broadcast_def abs_entity_def)
          moreover have "update_ref Packet_copy h e p = (h0, Inl AttributeError)"
            using Inr Some rr upd True None by (simp add: update_ref_def)
          ultimately show ?thesis using uv by simp
        next
          case ns: (Some ns)
          have ur: "update_ref Packet_copy h e p = send_all Packet_copy h0 e [] ns"
            using Inr Some rr upd True ns by (simp add: update_ref_def)
          show ?thesis
          proof (cases "r_vector e")
            case None
            have b: "broadcast (abs_entity h0 e) = (if ns = [] then Inr [] else Inl AttributeError)"
              using None ns by (simp add: broadcast_def abs_entity_def)
            have "send_all Packet_copy h0 e [] ns =
                (h0, if ns = [] then Inr [] else Inl AttributeError)"
              using None by (cases ns) simp_all
            with uv ur b show ?thesis by simp
          next
            case a: (Some a)
            then have al: "a < length h0" using wf0 by (simp add: wf_ref_def)
            have b: "broadcast (abs_entity h0 e) = Inr (map (\<lambda>neighbor. Packet neighbor (h0 ! a)) ns)"
              using a ns by (simp add: broadcast_def abs_entity_def)
            from send_all_abs[OF a al, of "[]" ns] obtain h' pkts where
              sa: "send_all Packet_copy h0 e [] ns = (h', Inr pkts)"
              and l: "length h0 \<le> length h'" and f: "\<forall>x<length h0. h' ! x = h0 ! x"
              and m: "map (abs_built h') pkts = map (\<lambda>neighbor. Packet neighbor (h0 ! a)) ns"
              by auto
            have "abs_entity h' e = abs_entity h0 e"
              using abs_entity_frame[OF wf0 l] f by blast
            with uv ur b sa m show ?thesis by simp
          qed
        qed
      qed
    qed
  qed
qed

lemma set_links_sim:
  "a < length h \<Longrightarrow>
   (case set_links (h ! a) nc of
      Inl err \<Rightarrow> snd (set_links_ref h a nc) = Some err
    | Inr v' \<Rightarrow> snd (set_links_ref h a nc) = None \<and> fst (set_links_ref h a nc) ! a = v')"
proof (induction nc arbitrary: h)
  case Nil
  show ?case by simp
next
  case (Cons link rest)
  show ?case
  proof (cases "setitem (h ! a) (fst link) (snd link)")
    case (Inl err)
    then show ?thesis by simp
  next
    case (Inr v1)
    have al: "a < length (h[a := v1])" using Cons.prems by simp
    have rstep: "set_links_ref h a (link # rest) = set_links_ref (h[a := v1]) a rest"
      using Inr by simp
    have vstep: "set_links (h ! a) (link # rest) = set_links v1 rest"
      using Inr by simp
    have at: "h[a := v1] ! a = v1" using Cons.prems by simp
    from Cons.IH[OF al] show ?thesis unfolding rstep vstep at .
  qed
qed

lemma set_hops_ref_frame:
  "length h \<le> length (fst (set_hops_ref Packet_copy h a b pk ns)) \<and>
   (\<forall>x<length h. x \<noteq> b \<longrightarrow> fst (set_hops_ref Packet_copy h a b pk ns) ! x = h ! x)"
proof (induction ns arbitrary: h pk)
  case Nil
  show ?case by simp
next
  case (Cons n rest)
  show ?case
  proof (cases "setitem (h ! b) n n")
    case (Inl err)
    then show ?thesis by simp
  next
    case (Inr nh1)
    let ?h1 = "h[b := nh1]"
    let ?h2 = "?h1 @ [?h1 ! a]"
    let ?p = "Packet_at n (length h)"
    have step: "set_hops_ref Packet_copy h a b pk (n # rest) =
        set_hops_ref Packet_copy ?h2 a b (pk @ [?p]) rest"
      using Inr by (simp add: Packet_copy_eq[of ?h1 n a])
    from Cons.IH[of ?h2 "pk @ [?p]"] show ?thesis
      unfolding step by (auto simp: nth_append)
  qed
qed

lemma set_hops_sim:
  "a < length h \<Longrightarrow> b < length h \<Longrightarrow> a \<noteq> b \<Longrightarrow>
   \<forall>p\<in>set pk. costs_at p < length h \<and> costs_at p \<noteq> b \<Longrightarrow>
   (case set_hops (h ! a) (h ! b) (map (abs_built h) pk) ns of
      Inl err \<Rightarrow> snd (set_hops_ref Packet_copy h a b pk ns) = Inl err
    | Inr (nh', pkts0) \<Rightarrow>
        (\<exists>pkts. snd (set_hops_ref Packet_copy h a b pk ns) = Inr pkts \<and>
           fst (set_hops_ref Packet_copy h a b pk ns) ! b = nh' \<and>
           map (abs_built (fst (set_hops_ref Packet_copy h a b pk ns))) pkts = pkts0))"
proof (induction ns arbitrary: h pk)
  case Nil
  show ?case by simp
next
  case (Cons n rest)
  show ?case
  proof (cases "setitem (h ! b) n n")
    case (Inl err)
    then show ?thesis by simp
  next
    case (Inr nh1)
    let ?h1 = "h[b := nh1]"
    let ?h2 = "?h1 @ [?h1 ! a]"
    let ?p = "Packet_at n (length h)"
    have step: "set_hops_ref Packet_copy h a b pk (n # rest) =
        set_hops_ref Packet_copy ?h2 a b (pk @ [?p]) rest"
      using Inr by (simp add: Packet_copy_eq[of ?h1 n a])
    have vstep: "set_hops (h ! a) (h ! b) (map (abs_built h) pk) (n # rest) =
        set_hops (h ! a) nh1 (map (abs_built h) pk @ [Packet n (h ! a)]) rest"
      using Inr by simp
    have a2: "a < length ?h2" "b < length ?h2" using Cons.prems(1,2) by simp_all
    have pk2: "\<forall>p\<in>set (pk @ [?p]). costs_at p < length ?h2 \<and> costs_at p \<noteq> b"
      using Cons.prems(2,4) by auto
    have ha: "?h2 ! a = h ! a" using Cons.prems(1,3) by (simp add: nth_append)
    have hb: "?h2 ! b = nh1" using Cons.prems(2) by (simp add: nth_append)
    have old: "map (abs_built ?h2) pk = map (abs_built h) pk"
      using Cons.prems(4) by (auto simp: abs_built_def nth_append nth_list_update)
    have new: "abs_built ?h2 ?p = Packet n (h ! a)"
      using Cons.prems(1,3) by (simp add: abs_built_def nth_append)
    have m: "map (abs_built ?h2) (pk @ [?p]) = map (abs_built h) pk @ [Packet n (h ! a)]"
      using old new by simp
    from Cons.IH[OF a2 Cons.prems(3) pk2] show ?thesis
      unfolding step vstep ha hb m .
  qed
qed

lemma abs_entity_old:
  assumes wf: "wf_ref h e" and l: "length h \<le> length h'" and f: "\<forall>x<length h. h' ! x = h ! x"
  shows "map_option (\<lambda>a. h' ! a) (r_vector e) = vector (abs_entity h e)"
    and "map_option (\<lambda>b. h' ! b) (r_next_hop e) = next_hop (abs_entity h e)"
  using wf f by (auto simp: abs_entity_def wf_ref_def split: option.splits)

lemma initialize_costs_sim:
  assumes wf: "wf_ref h e"
  shows "initialize_costs (abs_entity h e) nc =
     (abs_entity (fst (initialize_costs_ref Packet_copy h e nc))
        (fst (snd (initialize_costs_ref Packet_copy h e nc))),
      map_sum id (map (abs_built (fst (initialize_costs_ref Packet_copy h e nc))))
        (snd (snd (initialize_costs_ref Packet_copy h e nc))))"
proof -
  let ?N = "nat (r_number_of_entities e)"
  let ?ns = "map fst nc"
  let ?a = "length h"
  let ?v0 = "replicate ?N (999 :: int)"
  let ?nh0 = "replicate ?N (0 :: int)"
  let ?h1 = "h @ [?v0]"
  let ?ev = "abs_entity h e"
  let ?e1 = "e\<lparr>r_neighbors := Some ?ns\<rparr>"
  have idx: "index ?ev = r_index e" and num: "number_of_entities ?ev = r_number_of_entities e"
    by (simp_all add: abs_entity_def)
  have h1a: "?h1 ! ?a = ?v0" by simp
  show ?thesis
  proof (cases "setitem ?v0 (r_index e) 0")
    case (Inl err)
    have r: "initialize_costs_ref Packet_copy h e nc = (?h1, ?e1, Inl err)"
      using Inl by (simp add: initialize_costs_ref_def alloc_def)
    have v: "initialize_costs ?ev nc = (?ev\<lparr>neighbors := Some ?ns\<rparr>, Inl err)"
      using Inl by (simp add: initialize_costs_def idx num)
    have "abs_entity ?h1 ?e1 = ?ev\<lparr>neighbors := Some ?ns\<rparr>"
      using abs_entity_old[OF wf, of ?h1] by (simp add: abs_entity_def nth_append)
    with r v show ?thesis by simp
  next
    case (Inr v1)
    let ?h1' = "?h1[?a := v1]"
    obtain h2 r2 where sl: "set_links_ref ?h1' ?a nc = (h2, r2)"
      by (cases "set_links_ref ?h1' ?a nc")
    from set_links_ref_frame[of ?h1' ?a nc] sl
    have l2: "length h2 = Suc (length h)" and f2: "\<forall>x. x \<noteq> ?a \<longrightarrow> h2 ! x = ?h1' ! x"
      by simp_all
    have f2': "\<forall>x<length h. h2 ! x = h ! x" using f2 by (simp add: nth_append)
    have al: "?a < length ?h1'" by simp
    have at: "?h1' ! ?a = v1" by simp
    note sim1 = set_links_sim[OF al, of nc, unfolded at sl, simplified]
    show ?thesis
    proof (cases "set_links v1 nc")
      case (Inl err)
      with sim1 have r2: "r2 = Some err" by simp
      have r: "initialize_costs_ref Packet_copy h e nc = (h2, ?e1, Inl err)"
        using Inr sl r2 by (simp add: initialize_costs_ref_def alloc_def)
      have v: "initialize_costs ?ev nc = (?ev\<lparr>neighbors := Some ?ns\<rparr>, Inl err)"
        using Inr Inl by (simp add: initialize_costs_def idx num)
      have "abs_entity h2 ?e1 = ?ev\<lparr>neighbors := Some ?ns\<rparr>"
        using abs_entity_old[OF wf, of h2] l2 f2' by (simp add: abs_entity_def)
      with r v show ?thesis by simp
    next
      case vv: (Inr v)
      with sim1 have r2: "r2 = None" and h2a: "h2 ! ?a = v" by simp_all
      let ?b = "length h2"
      let ?h3 = "h2 @ [?nh0]"
      let ?e2 = "?e1\<lparr>r_vector := Some ?a\<rparr>"
      let ?e2v = "?ev\<lparr>neighbors := Some ?ns, vector := Some v\<rparr>"
      show ?thesis
      proof (cases "setitem ?nh0 (r_index e) (r_index e)")
        case (Inl err)
        have r: "initialize_costs_ref Packet_copy h e nc = (?h3, ?e2, Inl err)"
          using Inr sl r2 Inl by (simp add: initialize_costs_ref_def alloc_def)
        have v: "initialize_costs ?ev nc = (?e2v, Inl err)"
          using Inr vv Inl by (simp add: initialize_costs_def idx num)
        have f3: "\<forall>x<length h. ?h3 ! x = h ! x" using f2' l2 by (simp add: nth_append)
        have "abs_entity ?h3 ?e2 = ?e2v"
          using abs_entity_old(2)[OF wf, of ?h3] l2 f3 h2a by (simp add: abs_entity_def nth_append)
        with r v show ?thesis by simp
      next
        case nh: (Inr nh1)
        let ?h3' = "?h3[?b := nh1]"
        obtain h4 r4 where sh: "set_hops_ref Packet_copy ?h3' ?a ?b [] ?ns = (h4, r4)"
          by (cases "set_hops_ref Packet_copy ?h3' ?a ?b [] ?ns")
        have a3: "?a < length ?h3'" and b3: "?b < length ?h3'" and ab: "?a \<noteq> ?b"
          using l2 by simp_all
        have h3a: "?h3' ! ?a = v" using h2a l2 by (simp add: nth_append)
        have h3b: "?h3' ! ?b = nh1" by simp
        from set_hops_ref_frame[of ?h3' ?a ?b "[]" ?ns] sh
        have l4: "length ?h3' \<le> length h4" and f4: "\<forall>x<length ?h3'. x \<noteq> ?b \<longrightarrow> h4 ! x = ?h3' ! x"
          by simp_all
        have f4': "\<forall>x<length h. h4 ! x = h ! x"
          using f4 f2' l2 by (simp add: nth_append)
        have h4a: "h4 ! ?a = v" using f4 a3 ab h3a by metis
        have l4': "length h \<le> length h4" using l4 l2 by simp
        note sim2 = set_hops_sim[OF a3 b3 ab, of "[]" ?ns, unfolded h3a h3b sh, simplified]
        show ?thesis
        proof (cases "set_hops v nh1 [] ?ns")
          case (Inl err)
          with sim2 have r4: "r4 = Inl err" by simp
          have r: "initialize_costs_ref Packet_copy h e nc = (h4, ?e2, Inl err)"
            using Inr sl r2 nh sh r4 by (simp add: initialize_costs_ref_def alloc_def)
          have v: "initialize_costs ?ev nc = (?e2v, Inl err)"
            using Inr vv nh Inl by (simp add: initialize_costs_def idx num)
          have "abs_entity h4 ?e2 = ?e2v"
            using abs_entity_old(2)[OF wf l4' f4'] h4a by (simp add: abs_entity_def)
          with r v show ?thesis by simp
        next
          case ok: (Inr res)
          obtain nhf pkts0 where res: "res = (nhf, pkts0)" by (cases res)
          from sim2 ok res obtain pkts where
            r4: "r4 = Inr pkts" and h4b: "h4 ! ?b = nhf" and m: "map (abs_built h4) pkts = pkts0"
            by auto
          have r: "initialize_costs_ref Packet_copy h e nc =
              (h4, ?e2\<lparr>r_next_hop := Some ?b\<rparr>, Inr pkts)"
            using Inr sl r2 nh sh r4 by (simp add: initialize_costs_ref_def alloc_def)
          have v: "initialize_costs ?ev nc = (?e2v\<lparr>next_hop := Some nhf\<rparr>, Inr pkts0)"
            using Inr vv nh ok res by (simp add: initialize_costs_def idx num)
          have "abs_entity h4 (?e2\<lparr>r_next_hop := Some ?b\<rparr>) = ?e2v\<lparr>next_hop := Some nhf\<rparr>"
            using h4a h4b by (simp add: abs_entity_def)
          with r v m show ?thesis by simp
        qed
      qed
    qed
  qed
qed

lemma initialize_costs_ref_wf:
  assumes i: "initialize_costs_ref Packet_copy h e nc = (h1, e1, Inr pkts)"
  shows "wf_ref h1 e1 \<and> separate e1"
proof -
  let ?N = "nat (r_number_of_entities e)"
  let ?a = "length h"
  let ?h1 = "h @ [replicate ?N 999]"
  from i obtain v1 where v1: "setitem (?h1 ! ?a) (r_index e) 0 = Inr v1"
    by (auto simp: initialize_costs_ref_def alloc_def Let_def split: sum.splits)
  obtain h2 r2 where sl: "set_links_ref (?h1[?a := v1]) ?a nc = (h2, r2)"
    by (cases "set_links_ref (?h1[?a := v1]) ?a nc")
  from i v1 sl have r2: "r2 = None"
    by (cases r2) (auto simp: initialize_costs_ref_def alloc_def Let_def split: sum.splits)
  from set_links_ref_frame[of "?h1[?a := v1]" ?a nc] sl
  have l2: "length h2 = Suc (length h)" by simp
  let ?b = "length h2"
  let ?h3 = "h2 @ [replicate ?N 0]"
  from i v1 sl r2 obtain nh1 where nh1: "setitem (?h3 ! ?b) (r_index e) (r_index e) = Inr nh1"
    by (auto simp: initialize_costs_ref_def alloc_def Let_def split: sum.splits)
  from i v1 sl r2 nh1 have
    sh: "set_hops_ref Packet_copy (?h3[?b := nh1]) ?a ?b [] (map fst nc) = (h1, Inr pkts)"
    and e1: "e1 = e\<lparr>r_neighbors := Some (map fst nc), r_vector := Some ?a, r_next_hop := Some ?b\<rparr>"
    by (auto simp: initialize_costs_ref_def alloc_def Let_def split: sum.splits prod.splits)
  from set_hops_ref_frame[of "?h3[?b := nh1]" ?a ?b "[]" "map fst nc"] sh
  have "length (?h3[?b := nh1]) \<le> length h1" by simp
  then show ?thesis using e1 l2 by (simp add: wf_ref_def separate_def)
qed

section \<open>Packets in flight\<close>

text \<open>
  Claim C6. With a packet constructor that copies the list it is handed, as the spec has it,
  every packet returned by \<open>initialize_costs\<close> or by \<open>update\<close> carries a list of its
  own: it is not the node's vector, it equals the vector as it was when the call returned,
  and no later run of \<open>update\<close> calls on the node changes it.
\<close>

theorem packets_are_snapshots:
  "(initialize_costs_ref Packet_copy h e nc = (h1, e1, Inr pkts) \<longrightarrow>
      (\<forall>p\<in>set pkts. \<exists>a. r_vector e1 = Some a \<and> costs_at p \<noteq> a \<and>
         h1 ! costs_at p = h1 ! a \<and>
         deliver_ref Packet_copy h1 e1 qs ! costs_at p = h1 ! costs_at p)) \<and>
   (wf_ref h e \<and> update_ref Packet_copy h e q = (h1, Inr pkts) \<longrightarrow>
      (\<forall>p\<in>set pkts. \<exists>a. r_vector e = Some a \<and> costs_at p \<noteq> a \<and>
         h1 ! costs_at p = h1 ! a \<and>
         deliver_ref Packet_copy h1 e qs ! costs_at p = h1 ! costs_at p))"
proof (intro conjI impI ballI)
  fix p
  assume i: "initialize_costs_ref Packet_copy h e nc = (h1, e1, Inr pkts)" and p: "p \<in> set pkts"
  from initialize_costs_ref_packets[OF i] p obtain a b where
    ab: "r_vector e1 = Some a" "r_next_hop e1 = Some b"
    and c: "costs_at p < length h1" "costs_at p \<noteq> a" "costs_at p \<noteq> b" "h1 ! costs_at p = h1 ! a"
    by blast
  from deliver_ref_frame[of h1 e1 qs] ab c
  have "deliver_ref Packet_copy h1 e1 qs ! costs_at p = h1 ! costs_at p" by simp
  with ab c show "\<exists>a. r_vector e1 = Some a \<and> costs_at p \<noteq> a \<and>
         h1 ! costs_at p = h1 ! a \<and>
         deliver_ref Packet_copy h1 e1 qs ! costs_at p = h1 ! costs_at p" by simp
next
  fix p
  assume "wf_ref h e \<and> update_ref Packet_copy h e q = (h1, Inr pkts)" and p: "p \<in> set pkts"
  then have wf: "wf_ref h e" and u: "update_ref Packet_copy h e q = (h1, Inr pkts)" by simp_all
  from update_ref_packets[OF wf u p] obtain a where
    a: "r_vector e = Some a" "a < length h" "length h \<le> costs_at p"
       "costs_at p < length h1" "h1 ! costs_at p = h1 ! a"
    by blast
  have nb: "r_next_hop e \<noteq> Some (costs_at p)"
    using wf a(3) by (auto simp: wf_ref_def)
  have na: "costs_at p \<noteq> a" using a(2,3) by simp
  from deliver_ref_frame[of h1 e qs] a na nb
  have "deliver_ref Packet_copy h1 e qs ! costs_at p = h1 ! costs_at p" by simp
  with a na show "\<exists>a. r_vector e = Some a \<and> costs_at p \<noteq> a \<and>
         h1 ! costs_at p = h1 ! a \<and>
         deliver_ref Packet_copy h1 e qs ! costs_at p = h1 ! costs_at p" by simp
qed

theorem packets_are_snapshots_witness:
  "initialize_costs_ref Packet_copy [[1, 0, 1]] (Entity_ref 0 3) links_A =
     ([[1, 0, 1], [0, 1, 5], [0, 1, 2], [0, 1, 5], [0, 1, 5]], node_A_ref,
      Inr [Packet_at 1 3,
           Packet_at 2 4]) \<and>
   deliver_ref Packet_copy [[1, 0, 1], [0, 1, 5], [0, 1, 2], [0, 1, 5], [0, 1, 5]] node_A_ref
     [from_B_ref] ! 3 = [0, 1, 5] \<and>
   wf_ref [[1, 0, 1], [0, 1, 5], [0, 1, 2], [0, 1, 5], [0, 1, 5]] node_A_ref \<and>
   update_ref Packet_copy [[1, 0, 1], [0, 1, 5], [0, 1, 2], [0, 1, 5], [0, 1, 5]] node_A_ref from_B_ref =
     ([[1, 0, 1], [0, 1, 2], [0, 1, 1], [0, 1, 5], [0, 1, 5], [0, 1, 2], [0, 1, 2]],
      Inr [Packet_at 1 5,
           Packet_at 2 6]) \<and>
   deliver_ref Packet_copy
     [[1, 0, 1], [0, 1, 2], [0, 1, 1], [0, 1, 5], [0, 1, 5], [0, 1, 2], [0, 1, 2]] node_A_ref
     [from_B_ref] ! 5 = [0, 1, 2]"
proof -
  let ?h1 = "[[1, 0, 1], [0, 1, 5], [0, 1, 2], [0, 1, 5], [0, 1, 5 :: int]]"
  let ?h2 = "[[1, 0, 1], [0, 1, 2], [0, 1, 1], [0, 1, 5], [0, 1, 5], [0, 1, 2], [0, 1, 2 :: int]]"
  let ?p3 = "Packet_at 1 3"
  let ?p4 = "Packet_at 2 4"
  let ?p5 = "Packet_at 1 5"
  let ?p6 = "Packet_at 2 6"
  have i: "initialize_costs_ref Packet_copy [[1, 0, 1]] (Entity_ref 0 3) links_A =
      (?h1, node_A_ref, Inr [?p3, ?p4])"
    by code_simp
  have wf: "wf_ref ?h1 node_A_ref" by (simp add: wf_ref_def node_A_ref_def)
  have u: "update_ref Packet_copy ?h1 node_A_ref from_B_ref = (?h2, Inr [?p5, ?p6])"
    by code_simp
  have m3: "?p3 \<in> set [?p3, ?p4]" by simp
  have m5: "?p5 \<in> set [?p5, ?p6]" by simp
  from packets_are_snapshots[where h = "[[1, 0, 1]]" and e = "Entity_ref 0 3" and nc = links_A
      and ?h1.0 = ?h1 and ?e1.0 = node_A_ref and pkts = "[?p3, ?p4]" and qs = "[from_B_ref]",
      THEN conjunct1, rule_format, OF i m3]
  have a: "deliver_ref Packet_copy ?h1 node_A_ref [from_B_ref] ! 3 = [0, 1, 5]" by auto
  from packets_are_snapshots[where h = ?h1 and e = node_A_ref and q = from_B_ref
      and ?h1.0 = ?h2 and pkts = "[?p5, ?p6]" and qs = "[from_B_ref]",
      THEN conjunct2, rule_format, OF conjI[OF wf u] m5]
  have b: "deliver_ref Packet_copy ?h2 node_A_ref [from_B_ref] ! 5 = [0, 1, 2]" by auto
  from i a wf u b show ?thesis by blast
qed

text \<open>
  The copy is the constructor's: \<open>entity.py\<close> hands over its own list. With a
  constructor that keeps the reference, the two packets node A returns from
  \<open>initialize_costs\<close> hold address 1, the node's vector, which reads \<open>[0, 1, 5]\<close> when
  they are returned and \<open>[0, 1, 2]\<close> once the node has absorbed the vector of B.
\<close>

lemma shared_list_follows_the_node:
  "initialize_costs_ref Packet_share [[1, 0, 1]] (Entity_ref 0 3) links_A =
     ([[1, 0, 1], [0, 1, 5], [0, 1, 2]], node_A_ref,
      Inr [Packet_at 1 1,
           Packet_at 2 1]) \<and>
   update_ref Packet_share [[1, 0, 1], [0, 1, 5], [0, 1, 2]] node_A_ref from_B_ref =
     ([[1, 0, 1], [0, 1, 2], [0, 1, 1]],
      Inr [Packet_at 1 1,
           Packet_at 2 1])"
  by code_simp

end
